theory Spec2Isabelle
  imports Complex_Main "HOL-Library.Product_Lexorder"
begin

section \<open>Cost estimation for laser-cut 2D profiles (geomCalc.py)\<close>

text \<open>
  The program reads a schema of vertices and edges (line segments and circular arcs),
  checks that it holds a closed curve, and prices it: cutting time over all edges plus
  material for the padded minimum bounding rectangle of every cycle's convex hull.

  Modelling decisions.
  \<^item> A Python float is modelled by the real number that is its value; infinities, NaN
    and \<open>OverflowError\<close> are outside the model. The operations on floats round, and what
    they return is not fixed here: the arithmetic is a parameter of the model, the record
    \<open>arith\<close> with one field for each operation that the source uses (\<open>+\<close>, \<open>-\<close>, \<open>*\<close>,
    \<open>/\<close>, \<open>** 2\<close>, \<open>math.sqrt\<close>, \<open>math.asin\<close>, \<open>math.exp\<close>, and the reading of a
    decimal literal). Every function of the program that computes takes the arithmetic as
    its first argument and performs the operations in the order of the source. Comparisons,
    \<open>cmp\<close>, \<open>math.fabs\<close> and the sign are exact on floats and are those of the reals.
    \<open>exact\<close> is the arithmetic that does not round. Every exception the arithmetic can
    raise (\<open>math.sqrt\<close> and \<open>math.asin\<close> outside their domain, division by a zero) is a
    branch of the model.
  \<^item> Every coordinate is a float. Where a file writes a coordinate without a fraction,
    Python 2 has an \<open>int\<close>; the one expression that would then differ is
    \<open>chord_midpoint\<close> (a floor division), a value that nothing reads.
  \<^item> Every edge has the keys \<open>Type\<close> and \<open>Vertices\<close>, the latter with two vertex ids,
    and every vertex a position with \<open>X\<close> and \<open>Y\<close>; the keys \<open>Center\<close> and
    \<open>ClockwiseFrom\<close> of an edge and the two top-level keys may be absent.
  \<^item> A Python dict is an association list with pairwise distinct keys; the list order is
    the dict's iteration order. \<open>json_object\<close> builds such a list as \<open>json.load\<close> builds a
    dict from the members of a JSON object.
  \<^item> Vertex ids are integers: the keys of \<open>schema["Vertices"]\<close> are the decimal strings
    \<open>str(n)\<close>, and \<open>int\<close> and \<open>str\<close> are inverse on them. Edge ids are strings.
  \<^item> \<open>nx.cycle_basis\<close> and \<open>nx.shortest_path\<close> (networkx) are library code; they are
    parameters of the model, the record \<open>networkx\<close>.
  \<^item> \<open>hull\<close> is an infix operator of the library, so a variable that the source calls
    \<open>hull\<close> is \<open>hul\<close> here; a local variable that shares its name with a key of
    \<open>values_dict\<close> carries a prime.
\<close>

subsection \<open>Exceptions\<close>

datatype error =
    ValueError
  | KeyError
  | IndexError
  | ZeroDivisionError
  | NetworkXNoCycle
  | NetworkXNoPath

definition ebind :: "error + 'a \<Rightarrow> ('a \<Rightarrow> error + 'b) \<Rightarrow> error + 'b" where
  "ebind m f = (case m of Inl e \<Rightarrow> Inl e | Inr x \<Rightarrow> f x)"

text \<open>A list comprehension whose element expression may raise: left to right, the first
  exception ends it.\<close>

fun emap :: "('a \<Rightarrow> error + 'b) \<Rightarrow> 'a list \<Rightarrow> error + 'b list" where
  "emap f [] = Inr []"
| "emap f (x # xs) = ebind (f x) (\<lambda>y. ebind (emap f xs) (\<lambda>ys. Inr (y # ys)))"

text \<open>\<open>d[k]\<close> on a dict and \<open>xs[0]\<close> on a list.\<close>

definition getitem :: "('k \<times> 'v) list \<Rightarrow> 'k \<Rightarrow> error + 'v" where
  "getitem d k = (case map_of d k of None \<Rightarrow> Inl KeyError | Some v \<Rightarrow> Inr v)"

definition first :: "'a list \<Rightarrow> error + 'a" where
  "first xs = (case xs of [] \<Rightarrow> Inl IndexError | x # _ \<Rightarrow> Inr x)"

text \<open>\<open>d[k] = v\<close>: an existing key keeps its place, a new key is added.\<close>

definition setitem :: "('k \<times> 'v) list \<Rightarrow> 'k \<Rightarrow> 'v \<Rightarrow> ('k \<times> 'v) list" where
  "setitem d k v =
     (if k \<in> set (map fst d) then map (\<lambda>(k', v'). if k' = k then (k', v) else (k', v')) d
      else d @ [(k, v)])"

text \<open>The dict that \<open>json.load\<close> makes of the members of a JSON object: of several
  members with one name, the last one is kept.\<close>

definition json_object :: "('k \<times> 'v) list \<Rightarrow> ('k \<times> 'v) list" where
  "json_object members = foldl (\<lambda>d (k, v). setitem d k v) [] members"

subsection \<open>Float arithmetic\<close>

text \<open>The operations on floats: \<open>fliteral\<close> reads a decimal literal, \<open>fsquare x\<close> is
  \<open>x ** 2\<close>, \<open>fdiv\<close> is the quotient by a divisor that is not zero.\<close>

record arith =
  fliteral :: "real \<Rightarrow> real"
  fadd :: "real \<Rightarrow> real \<Rightarrow> real"
  fsub :: "real \<Rightarrow> real \<Rightarrow> real"
  fmul :: "real \<Rightarrow> real \<Rightarrow> real"
  fdiv :: "real \<Rightarrow> real \<Rightarrow> real"
  fsquare :: "real \<Rightarrow> real"
  fsqrt :: "real \<Rightarrow> real"
  fasin :: "real \<Rightarrow> real"
  fexp :: "real \<Rightarrow> real"

definition exact :: arith where
  "exact =
     \<lparr>fliteral = (\<lambda>x. x), fadd = (+), fsub = (-), fmul = (*), fdiv = (/),
      fsquare = (\<lambda>x. x\<^sup>2), fsqrt = sqrt, fasin = arcsin, fexp = exp\<rparr>"

text \<open>An arithmetic that does not round but in which \<open>math.exp\<close> underflows as it does for
  doubles: the least positive double is \<open>2 ** -1074\<close>, and the result is \<open>0.0\<close> when the
  exponential is at most half of it.\<close>

definition underflowing :: arith where
  "underflowing = exact\<lparr>fexp := (\<lambda>x. if exp x \<le> 2 powr (- 1075) then 0 else exp x)\<rparr>"

text \<open>\<open>a / b\<close>, \<open>math.sqrt(x)\<close> and \<open>math.asin(x)\<close> with their exceptions.\<close>

definition py_div :: "arith \<Rightarrow> real \<Rightarrow> real \<Rightarrow> error + real" where
  "py_div fl a b = (if b = 0 then Inl ZeroDivisionError else Inr (fdiv fl a b))"

definition py_sqrt :: "arith \<Rightarrow> real \<Rightarrow> error + real" where
  "py_sqrt fl x = (if x < 0 then Inl ValueError else Inr (fsqrt fl x))"

definition py_asin :: "arith \<Rightarrow> real \<Rightarrow> error + real" where
  "py_asin fl x = (if x < -1 \<or> 1 < x then Inl ValueError else Inr (fasin fl x))"

subsection \<open>Constants\<close>

text \<open>\<open>0.75\<close> and \<open>0.5\<close> are floats; \<open>0.1\<close> and \<open>0.07\<close> are not, and the constants are what
  the literals are read as.\<close>

definition PADDING :: "arith \<Rightarrow> real" where "PADDING fl = fliteral fl (1 / 10)"
definition MATERIAL_COST :: real where "MATERIAL_COST = 75 / 100"
definition LASER_SPEED :: real where "LASER_SPEED = 5 / 10"
definition TIME_COST :: "arith \<Rightarrow> real" where "TIME_COST fl = fliteral fl (7 / 100)"

subsection \<open>Schema\<close>

type_synonym point = "real \<times> real"

text \<open>An edge object: \<open>Type\<close>, \<open>Vertices\<close> (two vertex ids), and for arcs \<open>Center\<close> and
  \<open>ClockwiseFrom\<close>; a key that is absent is \<open>None\<close>.\<close>

record edge =
  Type :: string
  EdgeVertices :: "int \<times> int"
  Center :: "point option"
  ClockwiseFrom :: "int option"

text \<open>The schema object: the top-level keys \<open>Vertices\<close> (id to position) and \<open>Edges\<close>
  (id to edge); a key that is absent is \<open>None\<close>.\<close>

record schema =
  Vertices :: "(int \<times> point) list option"
  Edges :: "(string \<times> edge) list option"

definition key :: "'a option \<Rightarrow> error + 'a" where
  "key x = (case x of None \<Rightarrow> Inl KeyError | Some v \<Rightarrow> Inr v)"

text \<open>\<open>(schema["Vertices"][str(p)]["Position"]["X"], ...["Y"])\<close>\<close>

definition position :: "schema \<Rightarrow> int \<Rightarrow> error + point" where
  "position s p = ebind (key (Vertices s)) (\<lambda>vs. getitem vs p)"

subsection \<open>Graph and cycles\<close>

record graph =
  nodes :: "int list"
  edges :: "(int \<times> int) list"

record networkx =
  cycle_basis :: "graph \<Rightarrow> int list list"
  shortest_path :: "graph \<Rightarrow> int \<Rightarrow> int \<Rightarrow> error + int list"

definition createGraph :: "schema \<Rightarrow> error + graph" where
  "createGraph s =
     ebind (key (Vertices s)) (\<lambda>vs.
     ebind (key (Edges s)) (\<lambda>es.
       Inr \<lparr>nodes = map fst vs, edges = map (\<lambda>(e, ed). EdgeVertices ed) es\<rparr>))"

definition findPath :: "networkx \<Rightarrow> graph \<Rightarrow> error + int list list" where
  "findPath nx g =
     (let cycles = cycle_basis nx g
      in if length cycles > 0 then Inr cycles else Inl NetworkXNoCycle)"

definition validateSchema :: "networkx \<Rightarrow> schema \<Rightarrow> error + (int list list \<times> graph)" where
  "validateSchema nx s =
     (if Edges s = None \<or> Vertices s = None then Inl ValueError
      else if length (map fst (the (Edges s))) \<noteq> length (remdups (map fst (the (Edges s))))
            \<or> length (map fst (the (Vertices s))) \<noteq> length (remdups (map fst (the (Vertices s))))
      then Inl ValueError
      else ebind (createGraph s) (\<lambda>g. ebind (findPath nx g) (\<lambda>cycles. Inr (cycles, g))))"

subsection \<open>Edge geometry\<close>

datatype edge_values =
    SegmentValues (start_id: int) (finish_id: int) (dist_val: real)
  | ArcValues (start_id: int) (finish_id: int) (center: point) (radius: real)
      (chord_length: real) (chord_midpoint: point) (sector_length: real)
      (sector_height: real) (box_points: "point list")

text \<open>\<open>math.sqrt((q[0] - p[0])**2 + (q[1] - p[1])**2)\<close>, the expression of \<open>dist\<close>, of
  \<open>radius\<close> (from the start to the centre) and of \<open>chord_length\<close>.\<close>

definition square_sum :: "arith \<Rightarrow> point \<Rightarrow> point \<Rightarrow> real" where
  "square_sum fl p q =
     fadd fl (fsquare fl (fsub fl (fst q) (fst p))) (fsquare fl (fsub fl (snd q) (snd p)))"

definition distance :: "arith \<Rightarrow> point \<Rightarrow> point \<Rightarrow> error + real" where
  "distance fl p q = py_sqrt fl (square_sum fl p q)"

definition segmentValues :: "arith \<Rightarrow> schema \<Rightarrow> edge \<Rightarrow> error + edge_values" where
  "segmentValues fl s ed =
     (let start_id' = fst (EdgeVertices ed); finish_id' = snd (EdgeVertices ed)
      in ebind (position s start_id') (\<lambda>start_coords.
         ebind (position s finish_id') (\<lambda>finish_coords.
         ebind (distance fl start_coords finish_coords) (\<lambda>d.
           Inr (SegmentValues start_id' finish_id' d)))))"

text \<open>The arithmetic of the \<open>else\<close> branch, lines 87 to 99, from \<open>radius\<close> to
  \<open>box_points\<close>. The sixteen quotients of \<open>box_points\<close> are two, each computed eight
  times.\<close>

definition arcGeometry ::
  "arith \<Rightarrow> int \<Rightarrow> int \<Rightarrow> point \<Rightarrow> point \<Rightarrow> point \<Rightarrow> error + edge_values" where
  "arcGeometry fl start_id' finish_id' start_coords finish_coords center' =
     ebind (distance fl start_coords center') (\<lambda>radius'.
       let dx = fsub fl (fst finish_coords) (fst start_coords);
           dy = fsub fl (snd finish_coords) (snd start_coords)
       in ebind (py_sqrt fl (fadd fl (fsquare fl dx) (fsquare fl dy))) (\<lambda>chord_length'.
          let chord_midpoint' = (fdiv fl (fadd fl (fst start_coords) (fst finish_coords)) 2,
                                 fdiv fl (fadd fl (snd start_coords) (snd finish_coords)) 2)
          in ebind (py_div fl chord_length' (fmul fl 2 radius')) (\<lambda>ratio.
             ebind (py_asin fl ratio) (\<lambda>angle.
             ebind (py_sqrt fl (fsub fl (fsquare fl radius')
                                        (fdiv fl (fsquare fl chord_length') 4))) (\<lambda>apothem.
               let sector_length' = fmul fl (fmul fl 2 radius') angle;
                   sector_height' = fsub fl radius' apothem
               in ebind (py_div fl (fmul fl sector_height' dy) chord_length') (\<lambda>ox.
                  ebind (py_div fl (fmul fl sector_height' dx) chord_length') (\<lambda>oy.
                    Inr (ArcValues start_id' finish_id' center' radius' chord_length'
                           chord_midpoint' sector_length' sector_height'
                           [(fadd fl (fst start_coords) ox, fsub fl (snd start_coords) oy),
                            (fsub fl (fst start_coords) ox, fadd fl (snd start_coords) oy),
                            (fsub fl (fst finish_coords) ox, fadd fl (snd finish_coords) oy),
                            (fadd fl (fst finish_coords) ox, fsub fl (snd finish_coords) oy)]))))))))"

definition arcValues :: "arith \<Rightarrow> schema \<Rightarrow> edge \<Rightarrow> error + edge_values" where
  "arcValues fl s ed =
     ebind (key (ClockwiseFrom ed)) (\<lambda>start_id'.
     ebind (first (filter (\<lambda>p. p \<noteq> start_id') [fst (EdgeVertices ed), snd (EdgeVertices ed)]))
       (\<lambda>finish_id'.
     ebind (position s start_id') (\<lambda>start_coords.
     ebind (position s finish_id') (\<lambda>finish_coords.
     ebind (key (Center ed)) (\<lambda>center'.
       arcGeometry fl start_id' finish_id' start_coords finish_coords center')))))"

definition edgeValues :: "arith \<Rightarrow> schema \<Rightarrow> edge \<Rightarrow> error + edge_values" where
  "edgeValues fl s ed =
     (if Type ed = ''LineSegment'' then segmentValues fl s ed else arcValues fl s ed)"

text \<open>The loop of \<open>computeValues\<close>: \<open>values_dict[edge_id] = ...\<close> for every edge id.\<close>

fun computeValues_loop ::
  "arith \<Rightarrow> schema \<Rightarrow> (string \<times> edge) list \<Rightarrow> (string \<times> edge_values) list
     \<Rightarrow> error + (string \<times> edge_values) list" where
  "computeValues_loop fl s [] values_dict = Inr values_dict"
| "computeValues_loop fl s ((edge_id, ed) # rest) values_dict =
     ebind (edgeValues fl s ed)
       (\<lambda>v. computeValues_loop fl s rest (setitem values_dict edge_id v))"

definition computeValues :: "arith \<Rightarrow> schema \<Rightarrow> error + (string \<times> edge_values) list" where
  "computeValues fl s = ebind (key (Edges s)) (\<lambda>es. computeValues_loop fl s es [])"

subsection \<open>Cut cost\<close>

text \<open>The term that one edge adds to \<open>price\<close>: \<open>dist / LASER_SPEED * TIME_COST\<close> or
  \<open>sector_length / (LASER_SPEED * math.exp(-1 / radius)) * TIME_COST\<close>.\<close>

definition edgePrice :: "arith \<Rightarrow> edge \<Rightarrow> edge_values \<Rightarrow> error + real" where
  "edgePrice fl ed v =
     (if Type ed = ''LineSegment''
      then (case v of
              SegmentValues a b d \<Rightarrow> Inr (fmul fl (fdiv fl d LASER_SPEED) (TIME_COST fl))
            | ArcValues a b c r cl cm sl sh bp \<Rightarrow> Inl KeyError)
      else (case v of
              SegmentValues a b d \<Rightarrow> Inl KeyError
            | ArcValues a b c r cl cm sl sh bp \<Rightarrow>
                ebind (py_div fl (- 1) r) (\<lambda>q.
                ebind (py_div fl sl (fmul fl LASER_SPEED (fexp fl q)))
                  (\<lambda>t. Inr (fmul fl t (TIME_COST fl))))))"

fun arcLength_loop ::
  "arith \<Rightarrow> (string \<times> edge) list \<Rightarrow> (string \<times> edge_values) list \<Rightarrow> real
     \<Rightarrow> error + real" where
  "arcLength_loop fl [] values_dict price = Inr price"
| "arcLength_loop fl ((edge_id, ed) # rest) values_dict price =
     ebind (getitem values_dict edge_id) (\<lambda>v.
     ebind (edgePrice fl ed v) (\<lambda>c. arcLength_loop fl rest values_dict (fadd fl price c)))"

definition arcLength :: "arith \<Rightarrow> schema \<Rightarrow> (string \<times> edge_values) list \<Rightarrow> error + real" where
  "arcLength fl s values_dict =
     ebind (key (Edges s)) (\<lambda>es. arcLength_loop fl es values_dict 0)"

subsection \<open>Convex hull (Graham scan)\<close>

definition turn :: "arith \<Rightarrow> point \<Rightarrow> point \<Rightarrow> point \<Rightarrow> int" where
  "turn fl p q r =
     (let c = fsub fl (fmul fl (fsub fl (fst q) (fst p)) (fsub fl (snd r) (snd p)))
                      (fmul fl (fsub fl (fst r) (fst p)) (fsub fl (snd q) (snd p)))
      in if c < 0 then - 1 else if c = 0 then 0 else 1)"

text \<open>The \<open>while\<close> loop of \<open>keep_left\<close>; the end of the list is the top of the stack.\<close>

function keep_left_pop :: "arith \<Rightarrow> point list \<Rightarrow> point \<Rightarrow> point list" where
  "keep_left_pop fl hul r =
     (if length hul > 1 \<and> turn fl (hul ! (length hul - 2)) (hul ! (length hul - 1)) r \<noteq> 1
      then keep_left_pop fl (butlast hul) r
      else hul)"
  by pat_completeness auto
termination
  by (relation "measure (\<lambda>(fl, hul, r). length hul)") auto

declare keep_left_pop.simps [simp del]

definition keep_left :: "arith \<Rightarrow> point list \<Rightarrow> point \<Rightarrow> point list" where
  "keep_left fl hul r =
     (let popped = keep_left_pop fl hul r
      in if popped = [] \<or> last popped \<noteq> r then popped @ [r] else popped)"

definition grahams_hull :: "arith \<Rightarrow> point list \<Rightarrow> point list" where
  "grahams_hull fl points =
     (let points' = sort points;
          l = foldl (keep_left fl) [] points';
          u = foldl (keep_left fl) [] (rev points')
      in l @ map (\<lambda>i. u ! i) [1 ..< length u - 1])"

text \<open>Reverse lookups. A dict has one entry for each key, so running over the entries is
  running over \<open>keys()\<close> and reading the value of each.\<close>

definition pointLookup :: "point \<Rightarrow> schema \<Rightarrow> error + int" where
  "pointLookup xy s =
     ebind (key (Vertices s)) (\<lambda>vs.
       first (map fst (filter (\<lambda>(k, pos). fst pos = fst xy \<and> snd pos = snd xy) vs)))"

definition edgeLookup :: "int \<times> int \<Rightarrow> schema \<Rightarrow> error + string" where
  "edgeLookup xy s =
     ebind (key (Edges s)) (\<lambda>es.
       first (map fst (filter (\<lambda>(k, ed).
         fst xy \<in> {fst (EdgeVertices ed), snd (EdgeVertices ed)}
         \<and> snd xy \<in> {fst (EdgeVertices ed), snd (EdgeVertices ed)}) es)))"

definition computeInnerHull ::
  "arith \<Rightarrow> networkx \<Rightarrow> schema \<Rightarrow> graph \<Rightarrow> error + int list list" where
  "computeInnerHull fl nx s g =
     ebind (findPath nx g) (\<lambda>cycles.
       emap (\<lambda>path.
         ebind (emap (position s) path) (\<lambda>pts.
           emap (\<lambda>h. pointLookup h s) (grahams_hull fl pts))) cycles)"

text \<open>\<open>xs.index(v)\<close>\<close>

fun index :: "'a list \<Rightarrow> 'a \<Rightarrow> error + nat" where
  "index [] v = Inl ValueError"
| "index (x # xs) v = (if x = v then Inr 0 else ebind (index xs v) (\<lambda>i. Inr (Suc i)))"

definition edgeType :: "schema \<Rightarrow> string \<Rightarrow> error + string" where
  "edgeType s e = ebind (key (Edges s)) (\<lambda>es. ebind (getitem es e) (\<lambda>ed. Inr (Type ed)))"

text \<open>\<open>[x for x in xs if c(x)]\<close> with a condition that may raise.\<close>

fun efilter :: "('a \<Rightarrow> error + bool) \<Rightarrow> 'a list \<Rightarrow> error + 'a list" where
  "efilter c [] = Inr []"
| "efilter c (x # xs) =
     ebind (c x) (\<lambda>b. ebind (efilter c xs) (\<lambda>ys. Inr (if b then x # ys else ys)))"

definition boxPointsOf :: "edge_values \<Rightarrow> error + point list" where
  "boxPointsOf v =
     (case v of SegmentValues a b d \<Rightarrow> Inl KeyError
              | ArcValues a b c r cl cm sl sh bp \<Rightarrow> Inr bp)"

text \<open>\<open>for x in extrusions: new_hull.extend(values_dict[x]["box_points"])\<close>\<close>

fun extend_loop ::
  "(string \<times> edge_values) list \<Rightarrow> string list \<Rightarrow> point list \<Rightarrow> error + point list" where
  "extend_loop values_dict [] new_hull = Inr new_hull"
| "extend_loop values_dict (x # rest) new_hull =
     ebind (getitem values_dict x) (\<lambda>v.
     ebind (boxPointsOf v) (\<lambda>bp. extend_loop values_dict rest (new_hull @ bp)))"

definition extrusionsOn ::
  "schema \<Rightarrow> (string \<times> edge_values) list \<Rightarrow> int list \<Rightarrow> error + string list" where
  "extrusionsOn s values_dict path =
     ebind (emap (\<lambda>xy. edgeLookup xy s) (zip path (tl path))) (\<lambda>on_path.
     ebind (efilter (\<lambda>arc. ebind (edgeType s arc) (\<lambda>t. Inr (t = ''CircularArc''))) on_path)
       (\<lambda>arcs_on_path.
       efilter (\<lambda>x.
         ebind (getitem values_dict x) (\<lambda>v.
         ebind (index path (start_id v)) (\<lambda>i.
         ebind (getitem values_dict x) (\<lambda>v'.
         ebind (index path (finish_id v')) (\<lambda>j. Inr (i > j)))))) arcs_on_path))"

text \<open>\<open>for a, b in izip(points, islice(points, 1, None))\<close>\<close>

fun pairs_loop ::
  "networkx \<Rightarrow> schema \<Rightarrow> graph \<Rightarrow> (string \<times> edge_values) list \<Rightarrow> (int \<times> int) list
     \<Rightarrow> point list \<Rightarrow> error + point list" where
  "pairs_loop nx s g values_dict [] new_hull = Inr new_hull"
| "pairs_loop nx s g values_dict ((a, b) # rest) new_hull =
     ebind (shortest_path nx g a b) (\<lambda>path.
     ebind (extrusionsOn s values_dict path) (\<lambda>extrusions.
     ebind (extend_loop values_dict extrusions new_hull) (\<lambda>new_hull'.
       pairs_loop nx s g values_dict rest new_hull')))"

definition expandHull ::
  "arith \<Rightarrow> networkx \<Rightarrow> schema \<Rightarrow> graph \<Rightarrow> (string \<times> edge_values) list \<Rightarrow> int list
     \<Rightarrow> error + point list" where
  "expandHull fl nx s g values_dict hul =
     ebind (emap (position s) hul) (\<lambda>new_hull.
     ebind (first hul) (\<lambda>h0.
       let points = hul @ [h0]
       in ebind (pairs_loop nx s g values_dict (zip points (tl points)) new_hull)
            (\<lambda>new_hull'. Inr (grahams_hull fl new_hull'))))"

text \<open>\<open>for hul in initial_hull: final_hull.append(...)\<close>\<close>

fun hulls_loop :: "(int list \<Rightarrow> error + point list) \<Rightarrow> int list list \<Rightarrow> point list list
     \<Rightarrow> error + point list list" where
  "hulls_loop f [] final_hull = Inr final_hull"
| "hulls_loop f (hul # rest) final_hull =
     ebind (f hul) (\<lambda>h. hulls_loop f rest (final_hull @ [h]))"

definition computeConvexHull ::
  "arith \<Rightarrow> networkx \<Rightarrow> schema \<Rightarrow> graph \<Rightarrow> (string \<times> edge_values) list
     \<Rightarrow> error + point list list" where
  "computeConvexHull fl nx s g values_dict =
     ebind (computeInnerHull fl nx s g) (\<lambda>initial_hull.
     ebind (key (Edges s)) (\<lambda>es.
       if length (filter (\<lambda>(e, ed). Type ed = ''CircularArc'') es) = 0
       then hulls_loop (\<lambda>hul. emap (position s) hul) initial_hull []
       else hulls_loop (expandHull fl nx s g values_dict) initial_hull []))"

subsection \<open>Minimum bounding rectangle\<close>

text \<open>The three numbers the loop derives from an edge \<open>(p1, p2)\<close>, a point \<open>p3\<close> and a pair
  of points \<open>(p4, p5)\<close>.\<close>

definition height_numerator :: "arith \<Rightarrow> point \<times> point \<Rightarrow> point \<Rightarrow> real" where
  "height_numerator fl e p3 =
     fsub fl
       (fadd fl
          (fsub fl (fmul fl (fsub fl (snd (snd e)) (snd (fst e))) (fst p3))
                   (fmul fl (fsub fl (fst (snd e)) (fst (fst e))) (snd p3)))
          (fmul fl (fst (snd e)) (snd (fst e))))
       (fmul fl (snd (snd e)) (fst (fst e)))"

definition width_numerator :: "arith \<Rightarrow> point \<times> point \<Rightarrow> point \<times> point \<Rightarrow> real" where
  "width_numerator fl e q =
     fadd fl (fmul fl (fsub fl (fst (snd q)) (fst (fst q))) (fsub fl (fst (snd e)) (fst (fst e))))
             (fmul fl (fsub fl (snd (snd q)) (snd (fst q))) (fsub fl (snd (snd e)) (snd (fst e))))"

definition segment_length_square :: "arith \<Rightarrow> point \<times> point \<Rightarrow> real" where
  "segment_length_square fl e =
     fadd fl (fsquare fl (fsub fl (fst (snd e)) (fst (fst e))))
             (fsquare fl (fsub fl (snd (snd e)) (snd (fst e))))"

type_synonym caliper = "real \<times> (real \<times> real \<times> real)"

text \<open>The body of the loop: one element \<open>s\<close> of the product, the dict updated.\<close>

definition caliper_step ::
  "arith \<Rightarrow> ((point \<times> point) \<times> caliper) list
     \<Rightarrow> ((point \<times> point) \<times> point) \<times> (point \<times> point)
     \<Rightarrow> error + ((point \<times> point) \<times> caliper) list" where
  "caliper_step fl caliper_sizes s =
     (let e = fst (fst s);
          h = height_numerator fl e (snd (fst s));
          w = width_numerator fl e (snd s);
          l = segment_length_square fl e
      in ebind (py_div fl \<bar>fmul fl h w\<bar> l) (\<lambda>area.
           case map_of caliper_sizes e of
             Some c \<Rightarrow> if fst c < area then Inr (setitem caliper_sizes e (area, (h, w, l)))
                       else Inr caliper_sizes
           | None \<Rightarrow> Inr (setitem caliper_sizes e (area, (h, w, l)))))"

fun caliper_loop ::
  "arith \<Rightarrow> (((point \<times> point) \<times> point) \<times> (point \<times> point)) list
     \<Rightarrow> ((point \<times> point) \<times> caliper) list
     \<Rightarrow> error + ((point \<times> point) \<times> caliper) list" where
  "caliper_loop fl [] caliper_sizes = Inr caliper_sizes"
| "caliper_loop fl (s # rest) caliper_sizes =
     ebind (caliper_step fl caliper_sizes s)
       (\<lambda>caliper_sizes'. caliper_loop fl rest caliper_sizes')"

text \<open>\<open>min(d, key=d.get)\<close>: the first key of the least value; the values are tuples,
  compared lexicographically. On an empty dict \<open>min\<close> raises \<open>ValueError\<close>. Only the
  value of the key found is read afterwards, so the result does not depend on which of
  several keys of the least value comes first.\<close>

fun min_entry :: "('k \<times> caliper) list \<Rightarrow> error + ('k \<times> caliper)" where
  "min_entry [] = Inl ValueError"
| "min_entry [kv] = Inr kv"
| "min_entry (kv # rest) =
     ebind (min_entry rest) (\<lambda>kv'. if snd kv' < snd kv then Inr kv' else Inr kv)"

definition min_by_value :: "('k \<times> caliper) list \<Rightarrow> error + 'k" where
  "min_by_value d = ebind (min_entry d) (\<lambda>kv. Inr (fst kv))"

definition findMinimumRectangle :: "arith \<Rightarrow> point list \<Rightarrow> error + real" where
  "findMinimumRectangle fl hul =
     ebind (first hul) (\<lambda>h0.
       let p = hul @ [h0];
           sides = filter (\<lambda>x. snd x \<noteq> fst (fst x) \<and> snd x \<noteq> snd (fst x))
                     (List.product (zip p (tl p)) hul)
       in ebind (caliper_loop fl (List.product sides (List.product hul hul)) [])
            (\<lambda>caliper_sizes.
          ebind (min_by_value caliper_sizes) (\<lambda>best_edge.
          ebind (getitem caliper_sizes best_edge) (\<lambda>c.
            let h = fst (snd c); w = fst (snd (snd c)); l = snd (snd (snd c))
            in ebind (py_sqrt fl l) (\<lambda>r.
               ebind (py_div fl \<bar>h\<bar> r) (\<lambda>height.
               ebind (py_div fl \<bar>w\<bar> r) (\<lambda>width.
                 Inr (fmul fl (fadd fl height (PADDING fl))
                              (fadd fl width (PADDING fl))))))))))"

subsection \<open>Material cost and price\<close>

definition rotateCalipers ::
  "arith \<Rightarrow> networkx \<Rightarrow> schema \<Rightarrow> graph \<Rightarrow> (string \<times> edge_values) list \<Rightarrow> error + real" where
  "rotateCalipers fl nx s g values_dict =
     ebind (computeConvexHull fl nx s g values_dict) (\<lambda>hulls.
     ebind (emap (findMinimumRectangle fl) hulls) (\<lambda>areas.
       Inr (foldl (\<lambda>price region. fadd fl price (fmul fl MATERIAL_COST region)) 0 areas)))"

text \<open>\<open>"{:.2f}".format(float(x))\<close>: the multiple of one hundredth that is nearest to the
  value of the float (of two nearest ones the even one), written with its sign, the digits
  of its integer part, a point and two digits.\<close>

definition round_half_even :: "real \<Rightarrow> int" where
  "round_half_even y =
     (let f = \<lfloor>y\<rfloor>
      in if y - of_int f < 1 / 2 then f
         else if 1 / 2 < y - of_int f then f + 1
         else if even f then f else f + 1)"

definition digit :: "nat \<Rightarrow> char" where
  "digit d = ''0123456789'' ! d"

fun decimal :: "nat \<Rightarrow> string" where
  "decimal n = (if n < 10 then [digit n] else decimal (n div 10) @ [digit (n mod 10)])"

declare decimal.simps [simp del]

definition format2f :: "real \<Rightarrow> string" where
  "format2f x =
     (let n = nat (round_half_even (\<bar>x\<bar> * 100))
      in (if x < 0 then ''-'' else []) @ decimal (n div 100) @ ''.''
           @ [digit (n mod 100 div 10), digit (n mod 10)])"

definition costFormat :: "real \<Rightarrow> string" where
  "costFormat x = ''$'' @ format2f x"

text \<open>The body of the \<open>try\<close> block of \<open>main\<close>, from the loaded schema to the number that is
  formatted.\<close>

definition price :: "arith \<Rightarrow> networkx \<Rightarrow> schema \<Rightarrow> error + real" where
  "price fl nx s =
     ebind (validateSchema nx s) (\<lambda>(path, g).
     ebind (computeValues fl s) (\<lambda>values_dict.
     ebind (arcLength fl s values_dict) (\<lambda>cut.
     ebind (rotateCalipers fl nx s g values_dict) (\<lambda>material.
       Inr (fadd fl cut material)))))"

text \<open>\<open>main\<close> over the files of a batch: each comes with its name and with what
  \<open>json.load\<close> made of it, a schema or the \<open>ValueError\<close> of the parser. The result is the
  lines printed and, when an exception left the loop, that exception.\<close>

fun main_loop ::
  "arith \<Rightarrow> networkx \<Rightarrow> (string \<times> (error + schema)) list \<Rightarrow> string list
     \<Rightarrow> string list \<times> error option" where
  "main_loop fl nx [] out = (out, None)"
| "main_loop fl nx ((name, loaded) # rest) out =
     (case ebind loaded (price fl nx) of
        Inr x \<Rightarrow> main_loop fl nx rest (out @ [name @ '' '' @ costFormat x])
      | Inl e \<Rightarrow>
          if e = ValueError
          then main_loop fl nx rest (out @ [name @ '' is not in valid JSON format.''])
          else (out, Some e))"

definition main :: "arith \<Rightarrow> networkx \<Rightarrow> (string \<times> (error + schema)) list
     \<Rightarrow> string list \<times> error option" where
  "main fl nx schemas = main_loop fl nx schemas []"

text \<open>What \<open>json.load\<close> makes of a well-formed schema file: the members of the two objects
  become dicts.\<close>

record raw_schema =
  raw_Vertices :: "(int \<times> point) list option"
  raw_Edges :: "(string \<times> edge) list option"

definition json_load :: "raw_schema \<Rightarrow> schema" where
  "json_load raw =
     \<lparr>Vertices = map_option json_object (raw_Vertices raw),
      Edges = map_option json_object (raw_Edges raw)\<rparr>"

subsection \<open>Example schemas\<close>

text \<open>A unit square of four line segments, the same file with the edge id \<open>a\<close> used twice,
  and an open path. \<open>example_nx\<close> holds the answers of networkx on the graphs of the
  examples: the cycle basis of each, and the shortest path between two neighbours.\<close>

definition seg :: "int \<Rightarrow> int \<Rightarrow> edge" where
  "seg a b = \<lparr>Type = ''LineSegment'', EdgeVertices = (a, b), Center = None, ClockwiseFrom = None\<rparr>"

definition square_raw :: raw_schema where
  "square_raw =
     \<lparr>raw_Vertices = Some [(1, (0, 0)), (2, (1, 0)), (3, (1, 1)), (4, (0, 1))],
      raw_Edges = Some [(''a'', seg 1 2), (''b'', seg 2 3), (''c'', seg 3 4), (''d'', seg 4 1)]\<rparr>"

definition duplicate_raw :: raw_schema where
  "duplicate_raw =
     \<lparr>raw_Vertices = Some [(1, (0, 0)), (2, (1, 0)), (3, (1, 1)), (4, (0, 1))],
      raw_Edges = Some [(''a'', seg 1 3), (''b'', seg 2 3), (''c'', seg 3 4), (''d'', seg 4 1),
                        (''a'', seg 1 2)]\<rparr>"

definition path_raw :: raw_schema where
  "path_raw =
     \<lparr>raw_Vertices = Some [(1, (0, 0)), (2, (1, 0)), (3, (1, 1))],
      raw_Edges = Some [(''a'', seg 1 2), (''b'', seg 2 3)]\<rparr>"

definition example_nx :: networkx where
  "example_nx =
     \<lparr>cycle_basis = (\<lambda>g. if edges g = [(1, 2), (2, 3), (3, 4), (4, 1)] then [[2, 3, 4, 1]]
                          else if edges g = [(1, 2), (2, 3), (3, 1)] then [[2, 3, 1]]
                          else if edges g = [(1, 2), (2, 3), (3, 4), (4, 1),
                                             (5, 6), (6, 7), (7, 8), (8, 5)]
                          then [[2, 3, 4, 1], [6, 7, 8, 5]]
                          else []),
      shortest_path = (\<lambda>g a b. if a = b then Inr [a] else Inr [a, b])\<rparr>"

text \<open>A right triangle whose side from vertex 2 to vertex 1 is an arc bulging outwards; the
  same with a centre that is not at the same distance from both ends of the arc; the same
  with a centre too near to the start of the arc; and a triangle whose arc has both ends at
  one place.\<close>

definition arc :: "int \<Rightarrow> int \<Rightarrow> point \<Rightarrow> int \<Rightarrow> edge" where
  "arc a b c from =
     \<lparr>Type = ''CircularArc'', EdgeVertices = (a, b), Center = Some c, ClockwiseFrom = Some from\<rparr>"

definition dome_raw :: raw_schema where
  "dome_raw =
     \<lparr>raw_Vertices = Some [(1, (0, 0)), (2, (6, 0)), (3, (0, 8))],
      raw_Edges = Some [(''a'', arc 1 2 (3, 4) 2), (''b'', seg 2 3), (''c'', seg 3 1)]\<rparr>"

definition skew_raw :: raw_schema where
  "skew_raw =
     \<lparr>raw_Vertices = Some [(1, (0, 0)), (2, (6, 0)), (3, (0, 8))],
      raw_Edges = Some [(''a'', arc 1 2 (6, 5) 2), (''b'', seg 2 3), (''c'', seg 3 1)]\<rparr>"

definition near_raw :: raw_schema where
  "near_raw =
     \<lparr>raw_Vertices = Some [(1, (0, 0)), (2, (6, 0)), (3, (0, 8))],
      raw_Edges = Some [(''a'', arc 1 2 (6, 1) 2), (''b'', seg 2 3), (''c'', seg 3 1)]\<rparr>"

definition degenerate_raw :: raw_schema where
  "degenerate_raw =
     \<lparr>raw_Vertices = Some [(1, (0, 0)), (2, (0, 0)), (3, (0, 8))],
      raw_Edges = Some [(''a'', arc 1 2 (3, 4) 2), (''b'', seg 2 3), (''c'', seg 3 1)]\<rparr>"

text \<open>The dome with the centre of the arc on its start.\<close>

definition pinned_raw :: raw_schema where
  "pinned_raw =
     \<lparr>raw_Vertices = Some [(1, (0, 0)), (2, (6, 0)), (3, (0, 8))],
      raw_Edges = Some [(''a'', arc 1 2 (6, 0) 2), (''b'', seg 2 3), (''c'', seg 3 1)]\<rparr>"


text \<open>The unit square and a rectangle of 2 by 1 beside it: two cycles.\<close>

definition twin_raw :: raw_schema where
  "twin_raw =
     \<lparr>raw_Vertices = Some [(1, (0, 0)), (2, (1, 0)), (3, (1, 1)), (4, (0, 1)),
                           (5, (3, 0)), (6, (5, 0)), (7, (5, 1)), (8, (3, 1))],
      raw_Edges = Some [(''a'', seg 1 2), (''b'', seg 2 3), (''c'', seg 3 4), (''d'', seg 4 1),
                        (''e'', seg 5 6), (''f'', seg 6 7), (''g'', seg 7 8), (''h'', seg 8 5)]\<rparr>"

text \<open>The unit square and a fifth vertex, at \<open>(3, 0)\<close>, that no edge meets.\<close>

definition stray_raw :: raw_schema where
  "stray_raw =
     \<lparr>raw_Vertices = Some [(1, (0, 0)), (2, (1, 0)), (3, (1, 1)), (4, (0, 1)), (5, (3, 0))],
      raw_Edges = Some [(''a'', seg 1 2), (''b'', seg 2 3), (''c'', seg 3 4), (''d'', seg 4 1)]\<rparr>"

text \<open>The dome with the arc going clockwise from vertex 1: it is the longer arc on the
  chord. The dome at one ten-thousandth of its size: the vertices at \<open>(0, 0)\<close>,
  \<open>(0.0006, 0)\<close> and \<open>(0, 0.0008)\<close>, the centre of the arc at \<open>(0.0003, 0.0004)\<close>. A triangle whose three vertices are on
  one line.\<close>

definition major_raw :: raw_schema where
  "major_raw =
     \<lparr>raw_Vertices = Some [(1, (0, 0)), (2, (6, 0)), (3, (0, 8))],
      raw_Edges = Some [(''a'', arc 1 2 (3, 4) 1), (''b'', seg 2 3), (''c'', seg 3 1)]\<rparr>"

definition tiny_raw :: raw_schema where
  "tiny_raw =
     \<lparr>raw_Vertices = Some [(1, (0, 0)), (2, (3 / 5000, 0)), (3, (0, 1 / 1250))],
      raw_Edges = Some [(''a'', arc 1 2 (3 / 10000, 1 / 2500) 2), (''b'', seg 2 3),
                        (''c'', seg 3 1)]\<rparr>"


subsection \<open>The quantities of the specification\<close>

text \<open>The quantities of an edge that the cut cost is made of, from the schema alone and in
  the arithmetic of the program. \<open>vertex_pos\<close> is the position of a vertex that the schema
  has, \<open>dist_of\<close> the distance of two points as the program computes it. The start of an
  arc is its \<open>ClockwiseFrom\<close> vertex, its radius the distance from its start to its centre,
  its chord the distance from its start to its other end.\<close>

definition vertex_pos :: "schema \<Rightarrow> int \<Rightarrow> point" where
  "vertex_pos s v = (case position s v of Inr p \<Rightarrow> p | Inl e \<Rightarrow> (0, 0))"

definition dist_of :: "arith \<Rightarrow> point \<Rightarrow> point \<Rightarrow> real" where
  "dist_of fl p q = fsqrt fl (square_sum fl p q)"

definition arc_start :: "edge \<Rightarrow> int" where
  "arc_start ed = the (ClockwiseFrom ed)"

definition arc_finish :: "edge \<Rightarrow> int" where
  "arc_finish ed =
     (if fst (EdgeVertices ed) \<noteq> arc_start ed then fst (EdgeVertices ed)
      else snd (EdgeVertices ed))"

definition arc_radius :: "arith \<Rightarrow> schema \<Rightarrow> edge \<Rightarrow> real" where
  "arc_radius fl s ed = dist_of fl (vertex_pos s (arc_start ed)) (the (Center ed))"

definition arc_chord :: "arith \<Rightarrow> schema \<Rightarrow> edge \<Rightarrow> real" where
  "arc_chord fl s ed = dist_of fl (vertex_pos s (arc_start ed)) (vertex_pos s (arc_finish ed))"

text \<open>The length that the program takes for an arc: on a circle of radius \<open>r\<close>, the
  shorter of the two arcs that stand on a chord \<open>c\<close> has the length
  \<open>2 * r * asin (c / (2 * r))\<close>.\<close>

definition minor_arc_length :: "arith \<Rightarrow> schema \<Rightarrow> edge \<Rightarrow> real" where
  "minor_arc_length fl s ed =
     fmul fl (fmul fl 2 (arc_radius fl s ed))
       (fasin fl (fdiv fl (arc_chord fl s ed) (fmul fl 2 (arc_radius fl s ed))))"

text \<open>The sagitta of an arc of radius \<open>r\<close> on a chord \<open>ch\<close>, and the four box points:
  the two ends \<open>p\<close> and \<open>q\<close> of the chord moved by the sagitta \<open>sh\<close> to both sides of the
  chord.\<close>

definition sagitta :: "arith \<Rightarrow> real \<Rightarrow> real \<Rightarrow> real" where
  "sagitta fl r ch = fsub fl r (fsqrt fl (fsub fl (fsquare fl r) (fdiv fl (fsquare fl ch) 4)))"

definition bulge_box :: "arith \<Rightarrow> point \<Rightarrow> point \<Rightarrow> real \<Rightarrow> real \<Rightarrow> point list" where
  "bulge_box fl p q sh ch =
     (let ox = fdiv fl (fmul fl sh (fsub fl (snd q) (snd p))) ch;
          oy = fdiv fl (fmul fl sh (fsub fl (fst q) (fst p))) ch
      in [(fadd fl (fst p) ox, fsub fl (snd p) oy), (fsub fl (fst p) ox, fadd fl (snd p) oy),
          (fsub fl (fst q) ox, fadd fl (snd q) oy), (fadd fl (fst q) ox, fsub fl (snd q) oy)])"

definition cut_length :: "arith \<Rightarrow> schema \<Rightarrow> edge \<Rightarrow> real" where
  "cut_length fl s ed =
     (if Type ed = ''LineSegment''
      then dist_of fl (vertex_pos s (fst (EdgeVertices ed))) (vertex_pos s (snd (EdgeVertices ed)))
      else minor_arc_length fl s ed)"

definition effective_speed :: "arith \<Rightarrow> schema \<Rightarrow> edge \<Rightarrow> real" where
  "effective_speed fl s ed =
     (if Type ed = ''LineSegment'' then LASER_SPEED
      else fmul fl LASER_SPEED (fexp fl (fdiv fl (- 1) (arc_radius fl s ed))))"

text \<open>An arc stalls the cut when its radius or its effective speed is zero.\<close>

definition stalls :: "arith \<Rightarrow> schema \<Rightarrow> edge \<Rightarrow> bool" where
  "stalls fl s ed \<longleftrightarrow>
     Type ed \<noteq> ''LineSegment'' \<and> (arc_radius fl s ed = 0 \<or> effective_speed fl s ed = 0)"

definition edge_cost :: "arith \<Rightarrow> schema \<Rightarrow> edge \<Rightarrow> real" where
  "edge_cost fl s ed =
     fmul fl (fdiv fl (cut_length fl s ed) (effective_speed fl s ed)) (TIME_COST fl)"

text \<open>A sum of floats is taken from the left, starting from \<open>0.0\<close>.\<close>

definition fsum :: "arith \<Rightarrow> real list \<Rightarrow> real" where
  "fsum fl xs = foldl (fadd fl) 0 xs"

definition cut_cost :: "arith \<Rightarrow> schema \<Rightarrow> real" where
  "cut_cost fl s = fsum fl (map (\<lambda>(e, ed). edge_cost fl s ed) (the (Edges s)))"

text \<open>The length along the arc as the specification has it: the arc goes clockwise (the
  \<open>y\<close> axis pointing up) from its start to its other end, round its centre. When the other
  end is less than a half turn clockwise from the start, this is the shorter arc on the
  chord, else the longer one. Euclidean distance, angles and lengths are those of the reals.\<close>

definition euclid :: "point \<Rightarrow> point \<Rightarrow> real" where
  "euclid p q = sqrt ((fst q - fst p)\<^sup>2 + (snd q - snd p)\<^sup>2)"

definition clockwise_sweep :: "point \<Rightarrow> point \<Rightarrow> point \<Rightarrow> real" where
  "clockwise_sweep c p q =
     (let minor = 2 * arcsin (euclid p q / (2 * euclid c p))
      in if (fst p - fst c) * (snd q - snd c) - (fst q - fst c) * (snd p - snd c) \<le> 0
         then minor else 2 * pi - minor)"

definition clockwise_arc_length :: "schema \<Rightarrow> edge \<Rightarrow> real" where
  "clockwise_arc_length s ed =
     euclid (the (Center ed)) (vertex_pos s (arc_start ed))
       * clockwise_sweep (the (Center ed)) (vertex_pos s (arc_start ed))
           (vertex_pos s (arc_finish ed))"

definition spec_cut_length :: "schema \<Rightarrow> edge \<Rightarrow> real" where
  "spec_cut_length s ed =
     (if Type ed = ''LineSegment''
      then euclid (vertex_pos s (fst (EdgeVertices ed))) (vertex_pos s (snd (EdgeVertices ed)))
      else clockwise_arc_length s ed)"

definition spec_cut_cost :: "schema \<Rightarrow> real" where
  "spec_cut_cost s =
     (\<Sum>(e, ed) \<leftarrow> the (Edges s).
        spec_cut_length s ed / effective_speed exact s ed * TIME_COST exact)"

text \<open>What the program relies on when both ends of a chord are one point: the facts on
  zero that hold of floats.\<close>

definition zero_laws :: "arith \<Rightarrow> bool" where
  "zero_laws fl \<longleftrightarrow>
     (\<forall>a. fsub fl a a = 0) \<and> (\<forall>a. fsub fl a 0 = a) \<and> fadd fl 0 0 = 0
     \<and> fsquare fl 0 = 0 \<and> (\<forall>a. 0 \<le> fsquare fl a) \<and> fsqrt fl 0 = 0
     \<and> (\<forall>b. b \<noteq> 0 \<longrightarrow> fdiv fl 0 b = 0)
     \<and> (\<forall>a b. 0 \<le> a \<longrightarrow> 0 \<le> b \<longrightarrow> 0 \<le> fadd fl a b)"

subsection \<open>The lines of a batch\<close>


subsection \<open>The hull expansion of the specification\<close>

text \<open>The final hull of a cycle as the specification words it. \<open>index_in\<close> is the index of
  the first occurrence of a vertex in a path, \<open>walk\<close> the pairs of neighbours of a cyclic
  sequence; \<open>projr\<close> reads the result of a step that did not raise.\<close>

definition index_in :: "'a list \<Rightarrow> 'a \<Rightarrow> nat" where
  "index_in path v = length (takeWhile (\<lambda>u. u \<noteq> v) path)"

definition walk :: "'a list \<Rightarrow> ('a \<times> 'a) list" where
  "walk xs = zip xs (tl xs @ [hd xs])"

definition edge_of :: "schema \<Rightarrow> string \<Rightarrow> edge" where
  "edge_of s x = the (map_of (the (Edges s)) x)"

definition initial_hull_of :: "arith \<Rightarrow> schema \<Rightarrow> int list \<Rightarrow> point list" where
  "initial_hull_of fl s cycle = grahams_hull fl (map (vertex_pos s) cycle)"

definition arcs_on_path :: "schema \<Rightarrow> int list \<Rightarrow> string list" where
  "arcs_on_path s path =
     filter (\<lambda>x. Type (edge_of s x) = ''CircularArc'')
       (map (\<lambda>xy. projr (edgeLookup xy s)) (zip path (tl path)))"

definition outward_extrusion :: "schema \<Rightarrow> int list \<Rightarrow> string \<Rightarrow> bool" where
  "outward_extrusion s path x \<longleftrightarrow>
     index_in path (arc_start (edge_of s x)) > index_in path (arc_finish (edge_of s x))"

definition extrusion_points ::
  "networkx \<Rightarrow> schema \<Rightarrow> graph \<Rightarrow> (string \<times> edge_values) list \<Rightarrow> int \<times> int \<Rightarrow> point list" where
  "extrusion_points nx s g values_dict ab =
     (let path = projr (shortest_path nx g (fst ab) (snd ab))
      in concat (map (\<lambda>x. box_points (the (map_of values_dict x)))
                  (filter (outward_extrusion s path) (arcs_on_path s path))))"

definition final_hull_of ::
  "arith \<Rightarrow> networkx \<Rightarrow> schema \<Rightarrow> graph \<Rightarrow> (string \<times> edge_values) list \<Rightarrow> int list
     \<Rightarrow> point list" where
  "final_hull_of fl nx s g values_dict cycle =
     (if \<forall>(e, ed) \<in> set (the (Edges s)). Type ed \<noteq> ''CircularArc''
      then initial_hull_of fl s cycle
      else grahams_hull fl
             (initial_hull_of fl s cycle
              @ concat (map (extrusion_points nx s g values_dict)
                         (walk (map (\<lambda>h. projr (pointLookup h s))
                                  (initial_hull_of fl s cycle))))))"

subsection \<open>The bounding rectangles of the specification\<close>










subsection \<open>Orientation and the hull property\<close>

text \<open>\<open>cross p q r\<close> is the number whose sign \<open>turn\<close> computes: positive when \<open>r\<close> is
  strictly to the left of the line from \<open>p\<close> to \<open>q\<close>. The arithmetic decides the
  orientation of the points of a set rightly when \<open>turn\<close> returns the sign of \<open>cross\<close> for
  every three of them. A point is within or on a hull
  \<open>[a]\<close> when it is \<open>a\<close>, within or on a hull \<open>[a, b]\<close> when it is on the segment from
  \<open>a\<close> to \<open>b\<close>, and within or on a longer hull, whose points go round counter-clockwise,
  when it is to the left of or on each of its edges.\<close>

definition cross :: "point \<Rightarrow> point \<Rightarrow> point \<Rightarrow> real" where
  "cross p q r = (fst q - fst p) * (snd r - snd p) - (fst r - fst p) * (snd q - snd p)"

definition orients :: "arith \<Rightarrow> point set \<Rightarrow> bool" where
  "orients fl P \<longleftrightarrow>
     (\<forall>p \<in> P. \<forall>q \<in> P. \<forall>r \<in> P. of_int (turn fl p q r) = sgn (cross p q r))"

definition on_segment :: "point \<Rightarrow> point \<Rightarrow> point \<Rightarrow> bool" where
  "on_segment a b q \<longleftrightarrow>
     cross a b q = 0
     \<and> 0 \<le> (fst q - fst a) * (fst b - fst a) + (snd q - snd a) * (snd b - snd a)
     \<and> (fst q - fst a) * (fst b - fst a) + (snd q - snd a) * (snd b - snd a)
         \<le> (fst b - fst a)\<^sup>2 + (snd b - snd a)\<^sup>2"

fun within_or_on :: "point list \<Rightarrow> point \<Rightarrow> bool" where
  "within_or_on [] q = False"
| "within_or_on [a] q = (q = a)"
| "within_or_on [a, b] q = on_segment a b q"
| "within_or_on hul q = (\<forall>e \<in> set (walk hul). 0 \<le> cross (fst e) (snd e) q)"

text \<open>The vocabulary of the proof: the determinant of two vectors, vectors that are
  positive in the lexicographic order, the order in which a scan meets the points (upwards
  for the lower hull, downwards for the upper one), and neighbours in a list.\<close>

definition det :: "point \<Rightarrow> point \<Rightarrow> real" where
  "det v w = fst v * snd w - fst w * snd v"

definition lexpos :: "point \<Rightarrow> bool" where
  "lexpos v \<longleftrightarrow> 0 < fst v \<or> (fst v = 0 \<and> 0 < snd v)"

definition vec :: "bool \<Rightarrow> point \<Rightarrow> point \<Rightarrow> point" where
  "vec up a b = (if up then (fst b - fst a, snd b - snd a) else (fst a - fst b, snd a - snd b))"

definition ahead :: "bool \<Rightarrow> point \<Rightarrow> point \<Rightarrow> bool" where
  "ahead up a b \<longleftrightarrow> (if up then a < b else b < a)"

definition adjacent :: "'a \<Rightarrow> 'a \<Rightarrow> 'a list \<Rightarrow> bool" where
  "adjacent a b xs \<longleftrightarrow> (\<exists>us vs. xs = us @ a # b # vs)"

text \<open>The invariant of a scan that has met the points \<open>P\<close> and holds the stack \<open>S\<close>: the
  stack goes on in the order of the scan, turns strictly left at each of its points, and
  every point met is to the left of or on the line of each of its edges; it starts with the
  first point met and ends with the last one.\<close>

definition chain :: "bool \<Rightarrow> point list \<Rightarrow> bool" where
  "chain up S \<longleftrightarrow> sorted_wrt (ahead up) S"

definition turns :: "point list \<Rightarrow> bool" where
  "turns S \<longleftrightarrow> (\<forall>us a b c vs. S = us @ a # b # c # vs \<longrightarrow> 0 < cross a b c)"

definition supports :: "point set \<Rightarrow> point list \<Rightarrow> bool" where
  "supports P S \<longleftrightarrow> (\<forall>a b. adjacent a b S \<longrightarrow> (\<forall>q \<in> P. 0 \<le> cross a b q))"

definition scan_inv :: "bool \<Rightarrow> point set \<Rightarrow> point list \<Rightarrow> bool" where
  "scan_inv up P S \<longleftrightarrow>
     chain up S \<and> turns S \<and> supports P S \<and> set S \<subseteq> P \<and> (P \<noteq> {} \<longrightarrow> S \<noteq> [])
     \<and> (\<forall>q \<in> P. q = hd S \<or> ahead up (hd S) q)
     \<and> (\<forall>q \<in> P. q = last S \<or> ahead up q (last S))"


section \<open>Properties\<close>

subsection \<open>The arithmetic that does not round\<close>

lemma exact_simps [simp]:
  "fliteral exact x = x" "fadd exact = (+)" "fsub exact = (-)" "fmul exact = (*)"
  "fdiv exact = (/)" "fsquare exact x = x\<^sup>2" "fsqrt exact = sqrt" "fasin exact = arcsin"
  "fexp exact = exp"
  by (simp_all add: exact_def)

lemma sum_squares_not_neg [simp]: "\<not> (x :: real)\<^sup>2 + y\<^sup>2 < 0"
  by (simp add: not_less)

lemma dist_of_exact: "dist_of exact p q = euclid p q"
  by (simp add: dist_of_def square_sum_def euclid_def)

lemma distance_exact: "distance exact p q = Inr (euclid p q)"
  by (simp add: distance_def py_sqrt_def square_sum_def euclid_def)

subsection \<open>Exceptions and dicts\<close>

lemma ebind_Inl [simp]: "ebind (Inl e) f = Inl e" by (simp add: ebind_def)
lemma ebind_Inr [simp]: "ebind (Inr x) f = f x" by (simp add: ebind_def)

lemma ebind_eq_Inr: "ebind m f = Inr y \<longleftrightarrow> (\<exists>x. m = Inr x \<and> f x = Inr y)"
  by (cases m) simp_all

lemma setitem_map_fst:
  "map fst (map (\<lambda>(k', v'). if k' = k then (k', v) else (k', v')) d) = map fst d"
  by (induction d) (auto split: prod.splits)

lemma setitem_keys:
  "map fst (setitem d k v) = (if k \<in> set (map fst d) then map fst d else map fst d @ [k])"
  unfolding setitem_def using setitem_map_fst[of k v d] by simp

lemma setitem_distinct: "distinct (map fst d) \<Longrightarrow> distinct (map fst (setitem d k v))"
  by (simp add: setitem_keys)

lemma json_object_distinct_aux:
  "distinct (map fst d) \<Longrightarrow> distinct (map fst (foldl (\<lambda>d (k, v). setitem d k v) d ms))"
  by (induction ms arbitrary: d) (auto simp: setitem_distinct split: prod.splits)

lemma json_object_distinct: "distinct (map fst (json_object ms))"
  unfolding json_object_def by (rule json_object_distinct_aux) simp

lemma validateSchema_missing_key:
  "Vertices s = None \<or> Edges s = None \<Longrightarrow> validateSchema nx s = Inl ValueError"
  by (auto simp: validateSchema_def)

lemma remdups_length_distinct: "distinct xs \<Longrightarrow> length (remdups xs) = length xs"
  by (simp add: distinct_remdups_id)

lemma validateSchema_dicts:
  assumes "createGraph s = Inr g"
    and "distinct (map fst (the (Vertices s)))" and "distinct (map fst (the (Edges s)))"
  shows "validateSchema nx s =
           (if cycle_basis nx g = [] then Inl NetworkXNoCycle else Inr (cycle_basis nx g, g))"
  using assms
  by (auto simp: validateSchema_def createGraph_def key_def findPath_def Let_def distinct_remdups_id
           split: option.splits)

text \<open>
  C6. When the cycle basis of the schema's graph is empty, \<open>findPath\<close> raises
  \<open>NetworkXNoCycle\<close> (the spec's \<open>NoClosedCurve\<close>), so do \<open>validateSchema\<close> and the whole
  computation, and nothing is printed for the schema; when the basis is not empty, the list
  of cycles is returned and there is no such error.
\<close>

theorem findPath_no_cycle_or_cycles:
  assumes "createGraph s = Inr g"
    and "distinct (map fst (the (Vertices s)))" and "distinct (map fst (the (Edges s)))"
  shows "findPath nx g =
           (if cycle_basis nx g = [] then Inl NetworkXNoCycle else Inr (cycle_basis nx g))
       \<and> validateSchema nx s =
           (if cycle_basis nx g = [] then Inl NetworkXNoCycle else Inr (cycle_basis nx g, g))
       \<and> (cycle_basis nx g = [] \<longrightarrow>
            price fl nx s = Inl NetworkXNoCycle
            \<and> main fl nx [(name, Inr s)] = ([], Some NetworkXNoCycle))"
  using validateSchema_dicts[OF assms, of nx]
  by (auto simp: findPath_def price_def main_def)

lemma square_load: "json_load square_raw = \<lparr>Vertices = Some [(1, (0, 0)), (2, (1, 0)), (3, (1, 1)), (4, (0, 1))],
      Edges = Some [(''a'', seg 1 2), (''b'', seg 2 3), (''c'', seg 3 4), (''d'', seg 4 1)]\<rparr>"
  by (simp add: json_load_def square_raw_def json_object_def setitem_def)

lemma duplicate_load: "json_load duplicate_raw = json_load square_raw"
  by (simp add: json_load_def square_raw_def duplicate_raw_def json_object_def setitem_def)

lemma path_load: "json_load path_raw =  \<lparr>Vertices = Some [(1, (0, 0)), (2, (1, 0)), (3, (1, 1))],
      Edges = Some [(''a'', seg 1 2), (''b'', seg 2 3)]\<rparr>"
  by (simp add: json_load_def path_raw_def json_object_def setitem_def)

theorem findPath_no_cycle_or_cycles_witness:
  "validateSchema example_nx (json_load path_raw) = Inl NetworkXNoCycle
   \<and> price exact example_nx (json_load path_raw) = Inl NetworkXNoCycle
   \<and> main exact example_nx [(''path.json'', Inr (json_load path_raw))] = ([], Some NetworkXNoCycle)
   \<and> validateSchema example_nx (json_load square_raw)
       = Inr ([[2, 3, 4, 1]], \<lparr>nodes = [1, 2, 3, 4], edges = [(1, 2), (2, 3), (3, 4), (4, 1)]\<rparr>)"
proof -
  have p: "createGraph (json_load path_raw) = Inr \<lparr>nodes = [1, 2, 3], edges = [(1, 2), (2, 3)]\<rparr>"
    by (simp add: path_load createGraph_def key_def seg_def)
  have q: "createGraph (json_load square_raw)
             = Inr \<lparr>nodes = [1, 2, 3, 4], edges = [(1, 2), (2, 3), (3, 4), (4, 1)]\<rparr>"
    by (simp add: square_load createGraph_def key_def seg_def)
  have dp: "distinct (map fst (the (Vertices (json_load path_raw))))"
       "distinct (map fst (the (Edges (json_load path_raw))))"
    by (simp_all add: path_load)
  have dq: "distinct (map fst (the (Vertices (json_load square_raw))))"
       "distinct (map fst (the (Edges (json_load square_raw))))"
    by (simp_all add: square_load)
  show ?thesis
    using findPath_no_cycle_or_cycles[OF p dp, where fl = exact and nx = example_nx
            and name = "''path.json''"]
          findPath_no_cycle_or_cycles[OF q dq, where fl = exact and nx = example_nx
            and name = "''square.json''"]
    by (simp add: example_nx_def)
qed

subsection \<open>Evaluating the unit square\<close>

lemma keep_left_pop_step:
  "keep_left_pop fl (xs @ [p, q]) r =
     (if turn fl p q r \<noteq> 1 then keep_left_pop fl (xs @ [p]) r else xs @ [p, q])"
  by (subst keep_left_pop.simps) (simp add: nth_append butlast_append)

lemma keep_left_pop_short [simp]: "keep_left_pop fl [] r = []" "keep_left_pop fl [p] r = [p]"
  by (subst keep_left_pop.simps, simp)+

lemma keep_left_pop2:
  "keep_left_pop fl [p, q] r = (if turn fl p q r \<noteq> 1 then [p] else [p, q])"
  using keep_left_pop_step[of fl "[]" p q r] by simp

lemma keep_left_pop3:
  "keep_left_pop fl [a, p, q] r = (if turn fl p q r \<noteq> 1 then keep_left_pop fl [a, p] r else [a, p, q])"
  using keep_left_pop_step[of fl "[a]" p q r] by simp

lemmas eval_defs = key_def getitem_def setitem_def first_def py_div_def py_sqrt_def py_asin_def
  distance_def square_sum_def PADDING_def TIME_COST_def Let_def

lemma square_values:
  "computeValues exact (json_load square_raw) =
     Inr [(''a'', SegmentValues 1 2 1), (''b'', SegmentValues 2 3 1),
          (''c'', SegmentValues 3 4 1), (''d'', SegmentValues 4 1 1)]"
  by (simp add: computeValues_def square_load edgeValues_def seg_def segmentValues_def
        position_def eval_defs)

lemma square_arcLength:
  "arcLength exact (json_load square_raw)
     [(''a'', SegmentValues 1 2 1), (''b'', SegmentValues 2 3 1),
      (''c'', SegmentValues 3 4 1), (''d'', SegmentValues 4 1 1)] = Inr (56 / 100)"
  by (simp add: arcLength_def square_load edgePrice_def seg_def LASER_SPEED_def TIME_COST_def
        eval_defs)

lemma square_grahams_hull:
  "grahams_hull exact [(1, 0), (1, 1), (0, 1), (0, 0)] = [(0, 0), (1, 0), (1, 1), (0, 1)]"
  by (simp add: grahams_hull_def keep_left_def keep_left_pop2 keep_left_pop3 turn_def
        sort_key_def insort_key_def)

lemma square_computeConvexHull:
  "computeConvexHull exact example_nx (json_load square_raw)
     \<lparr>nodes = [1, 2, 3, 4], edges = [(1, 2), (2, 3), (3, 4), (4, 1)]\<rparr> vd
     = Inr [[(0, 0), (1, 0), (1, 1), (0, 1)]]"
  by (simp add: computeConvexHull_def computeInnerHull_def findPath_def example_nx_def
        square_load position_def square_grahams_hull pointLookup_def seg_def eval_defs)

lemma square_findMinimumRectangle:
  "findMinimumRectangle exact [(0, 0), (1, 0), (1, 1), (0, 1)] = Inr (121 / 100)"
  by (simp add: findMinimumRectangle_def caliper_step_def height_numerator_def
        width_numerator_def segment_length_square_def min_by_value_def PADDING_def eval_defs)

lemma square_validate:
  "validateSchema example_nx (json_load square_raw)
     = Inr ([[2, 3, 4, 1]], \<lparr>nodes = [1, 2, 3, 4], edges = [(1, 2), (2, 3), (3, 4), (4, 1)]\<rparr>)"
  by (simp add: validateSchema_def square_load createGraph_def findPath_def example_nx_def
        seg_def eval_defs)

lemma square_price: "price exact example_nx (json_load square_raw) = Inr (587 / 400)"
  by (simp add: price_def square_validate square_values square_arcLength rotateCalipers_def
        square_computeConvexHull square_findMinimumRectangle MATERIAL_COST_def)

lemma decimal_small: "n < 10 \<Longrightarrow> decimal n = [digit n]"
  by (subst decimal.simps) simp

lemma round_half_even_square: "round_half_even (587 / 4) = 147"
  apply (simp add: round_half_even_def Let_def)
  done

lemma format_square: "costFormat (587 / 400) = ''$1.47''"
  apply (simp add: costFormat_def format2f_def round_half_even_square decimal_small digit_def Let_def)
  done

lemma square_main:
  "main exact example_nx [(name, Inr (json_load square_raw))] = ([name @ '' $1.47''], None)"
  by (simp add: main_def square_price format_square)

subsection \<open>Validation\<close>

text \<open>The comparison of \<open>len(keys())\<close> with \<open>len(set(keys()))\<close> never fails on a loaded
  schema: the keys of a dict are distinct.\<close>

lemma validateSchema_loaded_no_ValueError:
  assumes "raw_Vertices raw \<noteq> None" and "raw_Edges raw \<noteq> None"
  shows "validateSchema nx (json_load raw) \<noteq> Inl ValueError"
  using assms
  by (auto simp: validateSchema_def json_load_def json_object_distinct distinct_remdups_id
        createGraph_def key_def findPath_def Let_def split: if_splits)

text \<open>
  C8. A schema without \<open>Vertices\<close> or without \<open>Edges\<close> is refused with \<open>ValueError\<close>
  (\<open>validateSchema_missing_key\<close>). A schema file that uses an edge id twice is not: the
  loader keeps the last of the two edges, the validation accepts the schema and a price is
  printed.
\<close>

theorem validateSchema_duplicate_edge_id:
  "\<not> distinct (map fst (the (raw_Edges duplicate_raw)))
   \<and> validateSchema example_nx (json_load duplicate_raw)
       = Inr ([[2, 3, 4, 1]], \<lparr>nodes = [1, 2, 3, 4], edges = [(1, 2), (2, 3), (3, 4), (4, 1)]\<rparr>)
   \<and> main exact example_nx [(''duplicate.json'', Inr (json_load duplicate_raw))]
       = ([''duplicate.json $1.47''], None)"
  using square_main[of "''duplicate.json''"]
  by (simp add: duplicate_load square_validate) (simp add: duplicate_raw_def)

text \<open>In particular the file with the repeated edge id is not refused.\<close>

theorem validateSchema_duplicate_edge_id_accepted:
  "validateSchema example_nx (json_load duplicate_raw) \<noteq> Inl ValueError"
  using validateSchema_duplicate_edge_id by simp

subsection \<open>Edge geometry and cut cost\<close>

lemma map_of_setitem:
  "map_of (setitem d k v) k' = (if k' = k then Some v else map_of d k')"
proof (cases "k \<in> set (map fst d)")
  case True
  have "map_of (map (\<lambda>(k', v'). if k' = k then (k', v) else (k', v')) d) k'
          = (if k' = k then (if k \<in> set (map fst d) then Some v else None) else map_of d k')"
    by (induction d) (force split: prod.splits)+
  with True show ?thesis by (simp add: setitem_def)
next
  case False
  then have n: "map_of d k = None" by (simp add: map_of_eq_None_iff)
  from False have "setitem d k v = d @ [(k, v)]" by (simp add: setitem_def)
  with n show ?thesis by (cases "map_of d k'") (auto simp: map_add_def)
qed

lemma computeValues_loop_lookup:
  assumes "computeValues_loop fl s es vd0 = Inr vd" and "distinct (map fst es)"
  shows "(\<forall>(e, ed) \<in> set es. \<exists>v. edgeValues fl s ed = Inr v \<and> map_of vd e = Some v)
       \<and> (\<forall>k. k \<notin> set (map fst es) \<longrightarrow> map_of vd k = map_of vd0 k)"
  using assms
proof (induction es arbitrary: vd0)
  case Nil
  then show ?case by simp
next
  case (Cons x es)
  obtain e ed where x: "x = (e, ed)" by (cases x)
  from Cons.prems x obtain v where v: "edgeValues fl s ed = Inr v"
    and rest: "computeValues_loop fl s es (setitem vd0 e v) = Inr vd"
    by (auto simp: ebind_eq_Inr)
  from Cons.prems x have d: "distinct (map fst es)" and ne: "e \<notin> set (map fst es)" by auto
  from Cons.IH[OF rest d]
  have ih1: "\<forall>(e, ed) \<in> set es. \<exists>v. edgeValues fl s ed = Inr v \<and> map_of vd e = Some v"
    and ih2: "\<forall>k. k \<notin> set (map fst es) \<longrightarrow> map_of vd k = map_of (setitem vd0 e v) k"
    by blast+
  from ih2 ne have "map_of vd e = Some v" by (simp add: map_of_setitem)
  with v ih1 ih2 x show ?case by (auto simp: map_of_setitem)
qed

lemma segmentValues_Inr:
  assumes "segmentValues fl s ed = Inr v"
  shows "v = SegmentValues (fst (EdgeVertices ed)) (snd (EdgeVertices ed))
               (dist_of fl (vertex_pos s (fst (EdgeVertices ed)))
                  (vertex_pos s (snd (EdgeVertices ed))))"
  using assms
  by (auto simp: segmentValues_def Let_def ebind_eq_Inr vertex_pos_def distance_def dist_of_def
        py_sqrt_def split: if_splits)

lemma arcGeometry_Inr:
  assumes "arcGeometry fl a b p q c = Inr v"
  shows "\<exists>cm sh bp. v = ArcValues a b c (dist_of fl p c) (dist_of fl p q) cm
           (fmul fl (fmul fl 2 (dist_of fl p c))
              (fasin fl (fdiv fl (dist_of fl p q) (fmul fl 2 (dist_of fl p c))))) sh bp"
  using assms
  unfolding arcGeometry_def Let_def distance_def dist_of_def square_sum_def
  by (auto simp: ebind_eq_Inr py_div_def py_asin_def py_sqrt_def split: if_splits)

lemma arcValues_Inr:
  assumes "arcValues fl s ed = Inr v"
  shows "\<exists>cm sh bp. v = ArcValues (arc_start ed) (arc_finish ed) (the (Center ed))
           (arc_radius fl s ed) (arc_chord fl s ed) cm (minor_arc_length fl s ed) sh bp"
proof -
  from assms obtain a b p q c where a: "ClockwiseFrom ed = Some a"
    and b: "first (filter (\<lambda>p. p \<noteq> a) [fst (EdgeVertices ed), snd (EdgeVertices ed)]) = Inr b"
    and p: "position s a = Inr p" and q: "position s b = Inr q"
    and c: "Center ed = Some c" and g: "arcGeometry fl a b p q c = Inr v"
    by (auto simp: arcValues_def ebind_eq_Inr key_def split: option.splits)
  from a b have b': "b = arc_finish ed"
    by (auto simp: arc_finish_def arc_start_def first_def split: if_splits)
  from a have a': "a = arc_start ed" by (simp add: arc_start_def)
  from p a' have p': "vertex_pos s (arc_start ed) = p" by (simp add: vertex_pos_def)
  from q b' have q': "vertex_pos s (arc_finish ed) = q" by (simp add: vertex_pos_def)
  from arcGeometry_Inr[OF g] show ?thesis
    unfolding arc_radius_def arc_chord_def minor_arc_length_def p' q'
    using a' b' c by auto
qed

text \<open>What an edge adds to the cut cost once its values are there: its cost, unless the
  edge is an arc whose radius or whose effective speed is zero; then the division raises.\<close>

lemma edgePrice_edgeValues:
  assumes "edgeValues fl s ed = Inr v"
  shows "edgePrice fl ed v =
           (if stalls fl s ed then Inl ZeroDivisionError else Inr (edge_cost fl s ed))"
proof (cases "Type ed = ''LineSegment''")
  case True
  with assms have "segmentValues fl s ed = Inr v" by (simp add: edgeValues_def)
  from segmentValues_Inr[OF this] True show ?thesis
    by (simp add: edgePrice_def edge_cost_def cut_length_def effective_speed_def stalls_def)
next
  case False
  with assms have "arcValues fl s ed = Inr v" by (simp add: edgeValues_def)
  from arcValues_Inr[OF this] obtain cm sh bp where
    v: "v = ArcValues (arc_start ed) (arc_finish ed) (the (Center ed))
             (arc_radius fl s ed) (arc_chord fl s ed) cm (minor_arc_length fl s ed) sh bp"
    by blast
  with False show ?thesis
    by (simp add: edgePrice_def edge_cost_def cut_length_def effective_speed_def stalls_def
          py_div_def)
qed

lemma arcLength_loop_sum:
  assumes "\<forall>(e, ed) \<in> set es. \<exists>v. edgeValues fl s ed = Inr v \<and> map_of vd e = Some v"
  shows "arcLength_loop fl es vd p0 =
           (if \<exists>(e, ed) \<in> set es. stalls fl s ed then Inl ZeroDivisionError
            else Inr (foldl (fadd fl) p0 (map (\<lambda>(e, ed). edge_cost fl s ed) es)))"
  using assms
proof (induction es arbitrary: p0)
  case Nil
  then show ?case by simp
next
  case (Cons x es)
  obtain e ed where x: "x = (e, ed)" by (cases x)
  from Cons.prems x obtain v where v: "edgeValues fl s ed = Inr v" and m: "map_of vd e = Some v"
    by auto
  from Cons.prems have "\<forall>(e, ed) \<in> set es. \<exists>v. edgeValues fl s ed = Inr v \<and> map_of vd e = Some v"
    by simp
  from Cons.IH[OF this] x m edgePrice_edgeValues[OF v] show ?case
    by (simp add: getitem_def)
qed

text \<open>
  C2, as amended. When the edge values are computed, the cut cost is the sum, over the
  edges in the order of the dict and in the arithmetic of the program, of cut length
  divided by effective speed, times the time unit cost: for a line segment the distance of
  its end points at the nominal laser speed; for an arc the length
  \<open>2 * radius * asin (chord / (2 * radius))\<close>, which is the length of the shorter arc on the
  chord whatever the orientation of the arc, at the nominal speed times
  \<open>exp (- 1 / radius)\<close>, the radius being the distance from the \<open>ClockwiseFrom\<close> vertex to
  the centre. When the radius or the effective speed of an arc is zero (\<open>math.exp\<close>
  returns \<open>0.0\<close> for a radius below about \<open>1 / 745\<close>), there is no cut cost: the division
  raises \<open>ZeroDivisionError\<close>.
\<close>

theorem arcLength_is_sum_over_edges:
  assumes "Edges s = Some es" and "distinct (map fst es)" and "computeValues fl s = Inr vd"
  shows "arcLength fl s vd =
           (if \<exists>(e, ed) \<in> set es. stalls fl s ed then Inl ZeroDivisionError
            else Inr (cut_cost fl s))"
proof -
  from assms have "computeValues_loop fl s es [] = Inr vd"
    by (simp add: computeValues_def key_def)
  from computeValues_loop_lookup[OF this assms(2)] arcLength_loop_sum[of es fl s vd 0] assms(1)
  show ?thesis by (simp add: arcLength_def key_def cut_cost_def fsum_def)
qed


lemma sqrt_25 [simp]: "sqrt 25 = 5" using real_sqrt_abs[of 5] by simp
lemma sqrt_36 [simp]: "sqrt 36 = 6" using real_sqrt_abs[of 6] by simp
lemma sqrt_64 [simp]: "sqrt 64 = 8" using real_sqrt_abs[of 8] by simp
lemma sqrt_100 [simp]: "sqrt 100 = 10" using real_sqrt_abs[of 10] by simp
lemma sqrt_81 [simp]: "sqrt 81 = 9" using real_sqrt_abs[of 9] by simp
lemma sqrt_16 [simp]: "sqrt 16 = 4" using real_sqrt_abs[of 4] by simp

lemma dome_load:
  "json_load dome_raw =
     \<lparr>Vertices = Some [(1, (0, 0)), (2, (6, 0)), (3, (0, 8))],
      Edges = Some [(''a'', arc 1 2 (3, 4) 2), (''b'', seg 2 3), (''c'', seg 3 1)]\<rparr>"
  by (simp add: json_load_def dome_raw_def json_object_def setitem_def)

lemma dome_arc:
  "arcGeometry exact 2 1 (6, 0) (0, 0) (3, 4) =
     Inr (ArcValues 2 1 (3, 4) 5 6 (3, 0) (10 * arcsin (3 / 5)) 1
            [(6, 1), (6, - 1), (0, - 1), (0, 1)])"
  by (simp add: arcGeometry_def eval_defs)

lemma dome_values:
  "computeValues exact (json_load dome_raw) =
     Inr [(''a'', ArcValues 2 1 (3, 4) 5 6 (3, 0) (10 * arcsin (3 / 5)) 1
                   [(6, 1), (6, - 1), (0, - 1), (0, 1)]),
          (''b'', SegmentValues 2 3 10), (''c'', SegmentValues 3 1 8)]"
  by (simp add: computeValues_def dome_load edgeValues_def seg_def arc_def segmentValues_def
        arcValues_def dome_arc position_def eval_defs)

lemma underflowing_simps [simp]:
  "fliteral underflowing x = x" "fadd underflowing = (+)" "fsub underflowing = (-)"
  "fmul underflowing = (*)" "fdiv underflowing = (/)" "fsquare underflowing x = x\<^sup>2"
  "fsqrt underflowing = sqrt" "fasin underflowing = arcsin"
  "fexp underflowing x = (if exp x \<le> 2 powr (- 1075) then 0 else exp x)"
  by (simp_all add: underflowing_def exact_def)

lemma exp_underflows: "exp (- 2000 :: real) \<le> 2 powr (- 1075)"
proof -
  have "(2 :: real) \<le> exp 1" using exp_ge_add_one_self[of "1 :: real"] by simp
  then have "(2 :: real) ^ 2000 \<le> exp 1 ^ 2000" by (intro power_mono) simp_all
  also have "\<dots> = exp (2000 :: real)" using exp_of_nat_mult[of 2000 "1 :: real"] by simp
  finally have a: "(2 :: real) ^ 2000 \<le> exp 2000" .
  have "(2 :: real) ^ 1075 \<le> 2 ^ 2000" by (intro power_increasing) simp_all
  from this a have b: "(2 :: real) ^ 1075 \<le> exp 2000" by (rule order_trans)
  have c: "(0 :: real) < 2 ^ 1075" by (rule zero_less_power) simp
  from b c have "inverse (exp (2000 :: real)) \<le> inverse (2 ^ 1075)"
    by (rule le_imp_inverse_le)
  moreover have "exp (- 2000 :: real) = inverse (exp 2000)" by (rule exp_minus)
  moreover have "(2 :: real) powr (- 1075) = inverse (2 ^ 1075)"
    by (simp add: powr_minus powr_numeral)
  ultimately show ?thesis by (simp only:)
qed

lemma tiny_load:
  "json_load tiny_raw =
     \<lparr>Vertices = Some [(1, (0, 0)), (2, (3 / 5000, 0)), (3, (0, 1 / 1250))],
      Edges = Some [(''a'', arc 1 2 (3 / 10000, 1 / 2500) 2), (''b'', seg 2 3),
                    (''c'', seg 3 1)]\<rparr>"
  by (simp add: json_load_def tiny_raw_def json_object_def setitem_def)

lemma sqrt_tiny [simp]:
  "sqrt ((3 / 10000)\<^sup>2 + (1 / 2500)\<^sup>2) = 1 / 2000"
  "sqrt ((3 / 5000)\<^sup>2 + (1 / 1250)\<^sup>2) = 1 / 1000"
  "sqrt ((1 / 2000)\<^sup>2 - (3 / 5000)\<^sup>2 / 4) = 1 / 2500"
  by (rule real_sqrt_unique; simp add: power2_eq_square)+

lemma tiny_domain [simp]: "\<not> (1 / 2000 :: real)\<^sup>2 * 4 < (3 / 5000)\<^sup>2"
  by (simp add: power2_eq_square)

lemma tiny_arc:
  "arcGeometry underflowing 2 1 (3 / 5000, 0) (0, 0) (3 / 10000, 1 / 2500) =
     Inr (ArcValues 2 1 (3 / 10000, 1 / 2500) (1 / 2000) (3 / 5000) (3 / 10000, 0)
            (arcsin (3 / 5) / 1000) (1 / 10000)
            [(3 / 5000, 1 / 10000), (3 / 5000, - 1 / 10000), (0, - 1 / 10000),
             (0, 1 / 10000)])"
  by (simp add: arcGeometry_def eval_defs)

lemma tiny_values:
  "computeValues underflowing (json_load tiny_raw) =
     Inr [(''a'', ArcValues 2 1 (3 / 10000, 1 / 2500) (1 / 2000) (3 / 5000) (3 / 10000, 0)
            (arcsin (3 / 5) / 1000) (1 / 10000)
            [(3 / 5000, 1 / 10000), (3 / 5000, - 1 / 10000), (0, - 1 / 10000),
             (0, 1 / 10000)]),
          (''b'', SegmentValues 2 3 (1 / 1000)), (''c'', SegmentValues 3 1 (1 / 1250))]"
  by (simp add: computeValues_def tiny_load edgeValues_def seg_def arc_def segmentValues_def
        arcValues_def tiny_arc position_def eval_defs)

text \<open>The dome is priced in the arithmetic that does not round. The dome at one
  ten-thousandth of its size has an arc of radius \<open>0.0005\<close>: its edge values are computed,
  and then \<open>math.exp(-2000)\<close> is \<open>0.0\<close> and the cut cost raises.\<close>

theorem arcLength_is_sum_over_edges_witness:
  "computeValues exact (json_load dome_raw) =
     Inr [(''a'', ArcValues 2 1 (3, 4) 5 6 (3, 0) (10 * arcsin (3 / 5)) 1
                   [(6, 1), (6, - 1), (0, - 1), (0, 1)]),
          (''b'', SegmentValues 2 3 10), (''c'', SegmentValues 3 1 8)]
   \<and> arcLength exact (json_load dome_raw)
         [(''a'', ArcValues 2 1 (3, 4) 5 6 (3, 0) (10 * arcsin (3 / 5)) 1
                   [(6, 1), (6, - 1), (0, - 1), (0, 1)]),
          (''b'', SegmentValues 2 3 10), (''c'', SegmentValues 3 1 8)]
       = Inr (10 * arcsin (3 / 5) / (LASER_SPEED * exp (- 1 / 5)) * (7 / 100)
              + 10 / LASER_SPEED * (7 / 100) + 8 / LASER_SPEED * (7 / 100))
   \<and> computeValues underflowing (json_load tiny_raw) =
     Inr [(''a'', ArcValues 2 1 (3 / 10000, 1 / 2500) (1 / 2000) (3 / 5000) (3 / 10000, 0)
            (arcsin (3 / 5) / 1000) (1 / 10000)
            [(3 / 5000, 1 / 10000), (3 / 5000, - 1 / 10000), (0, - 1 / 10000),
             (0, 1 / 10000)]),
          (''b'', SegmentValues 2 3 (1 / 1000)), (''c'', SegmentValues 3 1 (1 / 1250))]
   \<and> arcLength underflowing (json_load tiny_raw)
         [(''a'', ArcValues 2 1 (3 / 10000, 1 / 2500) (1 / 2000) (3 / 5000) (3 / 10000, 0)
            (arcsin (3 / 5) / 1000) (1 / 10000)
            [(3 / 5000, 1 / 10000), (3 / 5000, - 1 / 10000), (0, - 1 / 10000),
             (0, 1 / 10000)]),
          (''b'', SegmentValues 2 3 (1 / 1000)), (''c'', SegmentValues 3 1 (1 / 1250))]
       = Inl ZeroDivisionError"
proof -
  have e: "Edges (json_load dome_raw)
             = Some [(''a'', arc 1 2 (3, 4) 2), (''b'', seg 2 3), (''c'', seg 3 1)]"
    by (simp add: dome_load)
  have d: "distinct (map fst [(''a'', arc 1 2 c f), (''b'', seg 2 3), (''c'', seg 3 1)])"
    for c f
    by simp
  have r: "arc_radius exact (json_load dome_raw) (arc 1 2 (3, 4) 2) = 5"
    and c: "arc_chord exact (json_load dome_raw) (arc 1 2 (3, 4) 2) = 6"
    by (simp_all add: arc_radius_def arc_chord_def arc_start_def arc_finish_def vertex_pos_def
          dist_of_def position_def dome_load arc_def eval_defs)
  have n: "\<not> (\<exists>(e, ed) \<in> set [(''a'', arc 1 2 (3, 4) 2), (''b'', seg 2 3), (''c'', seg 3 1)].
               stalls exact (json_load dome_raw) ed)"
    by (simp add: stalls_def effective_speed_def r LASER_SPEED_def seg_def)
  have t: "Type (arc 1 2 c f) \<noteq> ''LineSegment''" "Type (seg a b) = ''LineSegment''"
    "EdgeVertices (seg a b) = (a, b)" for a b c f
    by (simp_all add: arc_def seg_def)
  have p: "vertex_pos (json_load dome_raw) 1 = (0, 0)" "vertex_pos (json_load dome_raw) 2 = (6, 0)"
    "vertex_pos (json_load dome_raw) 3 = (0, 8)"
    by (simp_all add: vertex_pos_def position_def dome_load eval_defs)
  have v: "cut_cost exact (json_load dome_raw)
           = 10 * arcsin (3 / 5) / (LASER_SPEED * exp (- 1 / 5)) * (7 / 100)
              + 10 / LASER_SPEED * (7 / 100) + 8 / LASER_SPEED * (7 / 100)"
    by (simp add: cut_cost_def fsum_def edge_cost_def cut_length_def effective_speed_def
          minor_arc_length_def r c e t p dist_of_def square_sum_def TIME_COST_def)
  have e': "Edges (json_load tiny_raw)
             = Some [(''a'', arc 1 2 (3 / 10000, 1 / 2500) 2), (''b'', seg 2 3), (''c'', seg 3 1)]"
    by (simp add: tiny_load)
  have r': "arc_radius underflowing (json_load tiny_raw) (arc 1 2 (3 / 10000, 1 / 2500) 2)
              = 1 / 2000"
    by (simp add: arc_radius_def arc_start_def vertex_pos_def dist_of_def position_def
          tiny_load arc_def eval_defs)
  have s: "stalls underflowing (json_load tiny_raw) (arc 1 2 (3 / 10000, 1 / 2500) 2)"
    by (simp add: stalls_def effective_speed_def r' t exp_underflows)
  from arcLength_is_sum_over_edges[OF e d dome_values] n dome_values
  have "arcLength exact (json_load dome_raw)
         [(''a'', ArcValues 2 1 (3, 4) 5 6 (3, 0) (10 * arcsin (3 / 5)) 1
                   [(6, 1), (6, - 1), (0, - 1), (0, 1)]),
          (''b'', SegmentValues 2 3 10), (''c'', SegmentValues 3 1 8)]
       = Inr (10 * arcsin (3 / 5) / (LASER_SPEED * exp (- 1 / 5)) * (7 / 100)
              + 10 / LASER_SPEED * (7 / 100) + 8 / LASER_SPEED * (7 / 100))"
    unfolding v by simp
  moreover from arcLength_is_sum_over_edges[OF e' d tiny_values] s
  have "arcLength underflowing (json_load tiny_raw)
         [(''a'', ArcValues 2 1 (3 / 10000, 1 / 2500) (1 / 2000) (3 / 5000) (3 / 10000, 0)
            (arcsin (3 / 5) / 1000) (1 / 10000)
            [(3 / 5000, 1 / 10000), (3 / 5000, - 1 / 10000), (0, - 1 / 10000),
             (0, 1 / 10000)]),
          (''b'', SegmentValues 2 3 (1 / 1000)), (''c'', SegmentValues 3 1 (1 / 1250))]
       = Inl ZeroDivisionError"
    by simp
  ultimately show ?thesis using dome_values tiny_values by blast
qed

lemma major_load:
  "json_load major_raw =
     \<lparr>Vertices = Some [(1, (0, 0)), (2, (6, 0)), (3, (0, 8))],
      Edges = Some [(''a'', arc 1 2 (3, 4) 1), (''b'', seg 2 3), (''c'', seg 3 1)]\<rparr>"
  by (simp add: json_load_def major_raw_def json_object_def setitem_def)

lemma major_arc:
  "arcGeometry exact 1 2 (0, 0) (6, 0) (3, 4) =
     Inr (ArcValues 1 2 (3, 4) 5 6 (3, 0) (10 * arcsin (3 / 5)) 1
            [(0, - 1), (0, 1), (6, 1), (6, - 1)])"
  by (simp add: arcGeometry_def eval_defs)

lemma major_values:
  "computeValues exact (json_load major_raw) =
     Inr [(''a'', ArcValues 1 2 (3, 4) 5 6 (3, 0) (10 * arcsin (3 / 5)) 1
                   [(0, - 1), (0, 1), (6, 1), (6, - 1)]),
          (''b'', SegmentValues 2 3 10), (''c'', SegmentValues 3 1 8)]"
  by (simp add: computeValues_def major_load edgeValues_def seg_def arc_def segmentValues_def
        arcValues_def major_arc position_def eval_defs)

lemma major_arcLength:
  "arcLength exact (json_load major_raw)
     [(''a'', ArcValues 1 2 (3, 4) 5 6 (3, 0) (10 * arcsin (3 / 5)) 1
                   [(0, - 1), (0, 1), (6, 1), (6, - 1)]),
      (''b'', SegmentValues 2 3 10), (''c'', SegmentValues 3 1 8)]
     = Inr (10 * arcsin (3 / 5) / (LASER_SPEED * exp (- 1 / 5)) * (7 / 100)
            + 10 / LASER_SPEED * (7 / 100) + 8 / LASER_SPEED * (7 / 100))"
  by (simp add: arcLength_def major_load edgePrice_def seg_def arc_def LASER_SPEED_def
        eval_defs)

lemma arcsin_three_fifths: "arcsin (3 / 5) < pi / 2"
  using arcsin_lt_bounded[of "3 / 5"] by simp

text \<open>C2 as stated fails: the arc of this schema goes clockwise from vertex 1, at \<open>(0, 0)\<close>,
  to vertex 2, at \<open>(6, 0)\<close>, round the centre \<open>(3, 4)\<close>, the long way round: its length
  is \<open>10 * pi - 10 * asin (3 / 5)\<close>, about 24.98. The cut length that the program takes
  is \<open>10 * asin (3 / 5)\<close>, about 6.44, the length of the shorter arc, the same as for the
  dome, whose arc goes clockwise from vertex 2 to vertex 1; and so the cut cost is not the
  sum that the claim has. (Were the \<open>y\<close> axis taken to point down, the dome would be the
  schema on which the claim fails: the two arcs make up the circle, of length \<open>10 * pi\<close>.)\<close>

theorem arc_cut_length_is_of_shorter_arc:
  "computeValues exact (json_load major_raw) =
     Inr [(''a'', ArcValues 1 2 (3, 4) 5 6 (3, 0) (10 * arcsin (3 / 5)) 1
                   [(0, - 1), (0, 1), (6, 1), (6, - 1)]),
          (''b'', SegmentValues 2 3 10), (''c'', SegmentValues 3 1 8)]
   \<and> clockwise_arc_length (json_load major_raw) (arc 1 2 (3, 4) 1)
       = 10 * pi - 10 * arcsin (3 / 5)
   \<and> clockwise_arc_length (json_load dome_raw) (arc 1 2 (3, 4) 2) = 10 * arcsin (3 / 5)
   \<and> 10 * arcsin (3 / 5) < 10 * pi - 10 * arcsin (3 / 5)
   \<and> arcLength exact (json_load major_raw)
         [(''a'', ArcValues 1 2 (3, 4) 5 6 (3, 0) (10 * arcsin (3 / 5)) 1
                   [(0, - 1), (0, 1), (6, 1), (6, - 1)]),
          (''b'', SegmentValues 2 3 10), (''c'', SegmentValues 3 1 8)]
       \<noteq> Inr (spec_cut_cost (json_load major_raw))"
proof -
  have l: "clockwise_arc_length (json_load major_raw) (arc 1 2 (3, 4) 1)
             = 10 * pi - 10 * arcsin (3 / 5)"
    by (simp add: clockwise_arc_length_def clockwise_sweep_def euclid_def arc_start_def
          arc_finish_def arc_def vertex_pos_def position_def major_load eval_defs)
  have m: "clockwise_arc_length (json_load dome_raw) (arc 1 2 (3, 4) 2) = 10 * arcsin (3 / 5)"
    by (simp add: clockwise_arc_length_def clockwise_sweep_def euclid_def arc_start_def
          arc_finish_def arc_def vertex_pos_def position_def dome_load eval_defs)
  have lt: "10 * arcsin (3 / 5) < 10 * pi - 10 * arcsin (3 / 5)"
    using arcsin_three_fifths by simp
  have t: "Type (arc 1 2 c f) \<noteq> ''LineSegment''" "Type (seg a b) = ''LineSegment''"
    "EdgeVertices (seg a b) = (a, b)" for a b c f
    by (simp_all add: arc_def seg_def)
  have e: "Edges (json_load major_raw)
             = Some [(''a'', arc 1 2 (3, 4) 1), (''b'', seg 2 3), (''c'', seg 3 1)]"
    by (simp add: major_load)
  have p: "vertex_pos (json_load major_raw) 1 = (0, 0)"
    "vertex_pos (json_load major_raw) 2 = (6, 0)" "vertex_pos (json_load major_raw) 3 = (0, 8)"
    by (simp_all add: vertex_pos_def position_def major_load eval_defs)
  have r: "arc_radius exact (json_load major_raw) (arc 1 2 (3, 4) 1) = 5"
    by (simp add: arc_radius_def arc_start_def vertex_pos_def dist_of_def position_def
          major_load arc_def eval_defs)
  have s: "spec_cut_cost (json_load major_raw)
             = (10 * pi - 10 * arcsin (3 / 5)) / (LASER_SPEED * exp (- 1 / 5)) * (7 / 100)
               + 10 / LASER_SPEED * (7 / 100) + 8 / LASER_SPEED * (7 / 100)"
    by (simp add: spec_cut_cost_def spec_cut_length_def effective_speed_def e t p l r
          euclid_def TIME_COST_def)
  have pos: "0 < LASER_SPEED * exp (- 1 / 5 :: real)" by (simp add: LASER_SPEED_def)
  from lt pos have "10 * arcsin (3 / 5) / (LASER_SPEED * exp (- 1 / 5))
        < (10 * pi - 10 * arcsin (3 / 5)) / (LASER_SPEED * exp (- 1 / 5))"
    by (rule divide_strict_right_mono)
  then have "10 * arcsin (3 / 5) / (LASER_SPEED * exp (- 1 / 5)) * (7 / 100)
        < (10 * pi - 10 * arcsin (3 / 5)) / (LASER_SPEED * exp (- 1 / 5)) * (7 / 100)"
    by (rule mult_strict_right_mono) simp
  then have "10 * arcsin (3 / 5) / (LASER_SPEED * exp (- 1 / 5)) * (7 / 100)
            + 10 / LASER_SPEED * (7 / 100) + 8 / LASER_SPEED * (7 / 100)
          \<noteq> spec_cut_cost (json_load major_raw)"
    unfolding s by simp
  with major_values major_arcLength l m lt show ?thesis by simp
qed

subsection \<open>Arcs whose ends are not at one distance from the centre\<close>

lemma arcValues_start_finish:
  assumes "ClockwiseFrom ed = Some a" and "Center ed = Some c"
    and "arc_finish ed \<noteq> arc_start ed"
    and "position s (arc_start ed) = Inr p" and "position s (arc_finish ed) = Inr q"
  shows "arcValues fl s ed = arcGeometry fl (arc_start ed) (arc_finish ed) p q c"
  using assms
  by (auto simp: arcValues_def key_def first_def arc_start_def arc_finish_def split: if_splits)

text \<open>An arc whose two vertex ids are both its \<open>ClockwiseFrom\<close> vertex has no other end:
  line 83 raises \<open>IndexError\<close>.\<close>

lemma arcValues_no_other_end:
  assumes "ClockwiseFrom ed = Some a" and "EdgeVertices ed = (a, a)"
  shows "arcValues fl s ed = Inl IndexError"
  using assms by (simp add: arcValues_def key_def first_def)

lemma arcGeometry_cases:
  assumes "0 \<le> square_sum fl p c" and "0 \<le> square_sum fl p q"
  shows "arcGeometry fl a b p q c =
     (let r = dist_of fl p c; ch = dist_of fl p q
      in if fmul fl 2 r = 0 then Inl ZeroDivisionError
         else if fdiv fl ch (fmul fl 2 r) < - 1 \<or> 1 < fdiv fl ch (fmul fl 2 r)
         then Inl ValueError
         else if fsub fl (fsquare fl r) (fdiv fl (fsquare fl ch) 4) < 0 then Inl ValueError
         else if ch = 0 then Inl ZeroDivisionError
         else Inr (ArcValues a b c r ch
                     (fdiv fl (fadd fl (fst p) (fst q)) 2, fdiv fl (fadd fl (snd p) (snd q)) 2)
                     (fmul fl (fmul fl 2 r) (fasin fl (fdiv fl ch (fmul fl 2 r))))
                     (sagitta fl r ch) (bulge_box fl p q (sagitta fl r ch) ch)))"
  using assms
  unfolding arcGeometry_def distance_def dist_of_def
  by (simp add: py_div_def py_asin_def py_sqrt_def sagitta_def bulge_box_def Let_def
        square_sum_def)

text \<open>
  C9, as amended. Take an arc with a centre and a \<open>ClockwiseFrom\<close> vertex, its start,
  whose two vertex ids are not both the start. Whether its two ends are at one distance from
  the centre is never looked at: the distance from the centre to the other end is not
  computed. The radius is the distance from the start to the centre, and everything else is
  computed from this radius and the chord, in the arithmetic of the program. The arc is
  accepted when twice the radius is not zero, the quotient of the chord by twice the radius
  is in the domain of \<open>math.asin\<close>, the square of the radius less a quarter of the square
  of the chord is not negative and the chord is not zero, all as computed; then sector
  length, sagitta and box points are those of the radius from the start, and the arc costs
  its sector length divided by \<open>LASER_SPEED * exp (- 1 / radius)\<close>, times \<open>TIME_COST\<close>,
  unless the radius or this speed is zero. It is refused with \<open>ZeroDivisionError\<close> when
  twice the radius is zero or the chord is zero, and with the \<open>ValueError\<close> of \<open>math.asin\<close>
  or of \<open>math.sqrt\<close> in the two other cases. (The sums of squares under the two first
  roots are taken to be not negative, as they are for floats.)
\<close>

theorem arc_radius_from_start:
  assumes "Type ed \<noteq> ''LineSegment''"
    and "ClockwiseFrom ed = Some a" and "Center ed = Some c"
    and "arc_finish ed \<noteq> arc_start ed"
    and "position s (arc_start ed) = Inr p" and "position s (arc_finish ed) = Inr q"
    and "0 \<le> square_sum fl p c" and "0 \<le> square_sum fl p q"
  shows "edgeValues fl s ed =
     (let r = dist_of fl p c; ch = dist_of fl p q
      in if fmul fl 2 r = 0 then Inl ZeroDivisionError
         else if fdiv fl ch (fmul fl 2 r) < - 1 \<or> 1 < fdiv fl ch (fmul fl 2 r)
         then Inl ValueError
         else if fsub fl (fsquare fl r) (fdiv fl (fsquare fl ch) 4) < 0 then Inl ValueError
         else if ch = 0 then Inl ZeroDivisionError
         else Inr (ArcValues (arc_start ed) (arc_finish ed) c r ch
                     (fdiv fl (fadd fl (fst p) (fst q)) 2, fdiv fl (fadd fl (snd p) (snd q)) 2)
                     (fmul fl (fmul fl 2 r) (fasin fl (fdiv fl ch (fmul fl 2 r))))
                     (sagitta fl r ch) (bulge_box fl p q (sagitta fl r ch) ch)))
   \<and> (\<forall>v. edgeValues fl s ed = Inr v \<longrightarrow>
         radius v = dist_of fl p c
         \<and> edgePrice fl ed v =
             (if dist_of fl p c = 0
                 \<or> fmul fl LASER_SPEED (fexp fl (fdiv fl (- 1) (dist_of fl p c))) = 0
              then Inl ZeroDivisionError
              else Inr (fmul fl
                          (fdiv fl (sector_length v)
                             (fmul fl LASER_SPEED (fexp fl (fdiv fl (- 1) (dist_of fl p c)))))
                          (TIME_COST fl))))"
proof -
  from assms(1) arcValues_start_finish[OF assms(2-6), of fl] arcGeometry_cases[OF assms(7,8)]
  have ev: "edgeValues fl s ed =
     (let r = dist_of fl p c; ch = dist_of fl p q
      in if fmul fl 2 r = 0 then Inl ZeroDivisionError
         else if fdiv fl ch (fmul fl 2 r) < - 1 \<or> 1 < fdiv fl ch (fmul fl 2 r)
         then Inl ValueError
         else if fsub fl (fsquare fl r) (fdiv fl (fsquare fl ch) 4) < 0 then Inl ValueError
         else if ch = 0 then Inl ZeroDivisionError
         else Inr (ArcValues (arc_start ed) (arc_finish ed) c r ch
                     (fdiv fl (fadd fl (fst p) (fst q)) 2, fdiv fl (fadd fl (snd p) (snd q)) 2)
                     (fmul fl (fmul fl 2 r) (fasin fl (fdiv fl ch (fmul fl 2 r))))
                     (sagitta fl r ch) (bulge_box fl p q (sagitta fl r ch) ch)))"
    by (simp add: edgeValues_def)
  have "radius v = dist_of fl p c
         \<and> edgePrice fl ed v =
             (if dist_of fl p c = 0
                 \<or> fmul fl LASER_SPEED (fexp fl (fdiv fl (- 1) (dist_of fl p c))) = 0
              then Inl ZeroDivisionError
              else Inr (fmul fl
                          (fdiv fl (sector_length v)
                             (fmul fl LASER_SPEED (fexp fl (fdiv fl (- 1) (dist_of fl p c)))))
                          (TIME_COST fl)))"
    if "edgeValues fl s ed = Inr v" for v
    using that assms(1) unfolding ev
    by (auto simp: Let_def edgePrice_def py_div_def split: if_splits)
  with ev show ?thesis by blast
qed

lemma skew_load:
  "json_load skew_raw =
     \<lparr>Vertices = Some [(1, (0, 0)), (2, (6, 0)), (3, (0, 8))],
      Edges = Some [(''a'', arc 1 2 (6, 5) 2), (''b'', seg 2 3), (''c'', seg 3 1)]\<rparr>"
  by (simp add: json_load_def skew_raw_def json_object_def setitem_def)

lemma pinned_load:
  "json_load pinned_raw =
     \<lparr>Vertices = Some [(1, (0, 0)), (2, (6, 0)), (3, (0, 8))],
      Edges = Some [(''a'', arc 1 2 (6, 0) 2), (''b'', seg 2 3), (''c'', seg 3 1)]\<rparr>"
  by (simp add: json_load_def pinned_raw_def json_object_def setitem_def)

text \<open>The arc of the schema \<open>skew\<close> has its start at distance 5 from its centre and its
  other end at another distance; it is accepted, with the radius 5. The arc of the schema
  \<open>pinned\<close> has its centre on its start: the radius is zero and the quotient by twice the
  radius raises.\<close>

theorem arc_radius_from_start_witness:
  "euclid (6, 5) (6, 0) = 5 \<and> euclid (6, 5) (0, 0) \<noteq> 5
   \<and> edgeValues exact (json_load skew_raw) (arc 1 2 (6, 5) 2)
       = Inr (ArcValues 2 1 (6, 5) 5 6 (3, 0) (10 * arcsin (3 / 5)) 1
                [(6, 1), (6, - 1), (0, - 1), (0, 1)])
   \<and> edgePrice exact (arc 1 2 (6, 5) 2)
         (ArcValues 2 1 (6, 5) 5 6 (3, 0) (10 * arcsin (3 / 5)) 1
            [(6, 1), (6, - 1), (0, - 1), (0, 1)])
       = Inr (10 * arcsin (3 / 5) / (LASER_SPEED * exp (- 1 / 5)) * (7 / 100))
   \<and> edgeValues exact (json_load pinned_raw) (arc 1 2 (6, 0) 2) = Inl ZeroDivisionError"
proof -
  have r: "euclid (6, 5) (6, 0) = 5"
    by (simp add: euclid_def)
  have n: "euclid (6, 5) (0, 0) \<noteq> 5"
    using real_sqrt_eq_iff[of 61 25] by (simp add: euclid_def)
  have h1: "Type (arc 1 2 c 2) \<noteq> ''LineSegment''"
    and h2: "ClockwiseFrom (arc 1 2 c 2) = Some 2"
    and h3: "Center (arc 1 2 c 2) = Some c"
    and h4: "arc_finish (arc 1 2 c 2) \<noteq> arc_start (arc 1 2 c 2)" for c
    by (simp_all add: arc_def arc_start_def arc_finish_def)
  have h5: "position (json_load skew_raw) (arc_start (arc 1 2 (6, 5) 2)) = Inr (6, 0)"
    and h6: "position (json_load skew_raw) (arc_finish (arc 1 2 (6, 5) 2)) = Inr (0, 0)"
    and k5: "position (json_load pinned_raw) (arc_start (arc 1 2 (6, 0) 2)) = Inr (6, 0)"
    and k6: "position (json_load pinned_raw) (arc_finish (arc 1 2 (6, 0) 2)) = Inr (0, 0)"
    by (simp_all add: arc_def arc_start_def arc_finish_def position_def skew_load pinned_load
          eval_defs)
  have h7: "0 \<le> square_sum exact (6, 0) c" and h8: "0 \<le> square_sum exact (6, 0) (0, 0)" for c
    by (simp_all add: square_sum_def)
  have d: "dist_of exact (6, 0) (6, 5) = 5" "dist_of exact (6, 0) (0, 0) = 6"
    "dist_of exact (6, 0) (6, 0) = 0"
    by (simp_all add: dist_of_def square_sum_def)
  have s: "sagitta exact 5 6 = 1" by (simp add: sagitta_def)
  have a: "arc_start (arc 1 2 c 2) = 2" "arc_finish (arc 1 2 c 2) = 1" for c
    by (simp_all add: arc_def arc_start_def arc_finish_def)
  from arc_radius_from_start[OF h1 h2 h3 h4 h5 h6 h7 h8]
  have "edgeValues exact (json_load skew_raw) (arc 1 2 (6, 5) 2)
       = Inr (ArcValues 2 1 (6, 5) 5 6 (3, 0) (10 * arcsin (3 / 5)) 1
                [(6, 1), (6, - 1), (0, - 1), (0, 1)])
     \<and> edgePrice exact (arc 1 2 (6, 5) 2)
         (ArcValues 2 1 (6, 5) 5 6 (3, 0) (10 * arcsin (3 / 5)) 1
            [(6, 1), (6, - 1), (0, - 1), (0, 1)])
       = Inr (10 * arcsin (3 / 5) / (LASER_SPEED * exp (- 1 / 5)) * (7 / 100))"
    by (simp add: d s a bulge_box_def Let_def LASER_SPEED_def TIME_COST_def)
  moreover from arc_radius_from_start[OF h1 h2 h3 h4 k5 k6 h7 h8]
  have "edgeValues exact (json_load pinned_raw) (arc 1 2 (6, 0) 2) = Inl ZeroDivisionError"
    by (simp add: d Let_def)
  ultimately show ?thesis using r n by blast
qed

lemma near_load:
  "json_load near_raw =
     \<lparr>Vertices = Some [(1, (0, 0)), (2, (6, 0)), (3, (0, 8))],
      Edges = Some [(''a'', arc 1 2 (6, 1) 2), (''b'', seg 2 3), (''c'', seg 3 1)]\<rparr>"
  by (simp add: json_load_def near_raw_def json_object_def setitem_def)

lemma triangle_validate:
  assumes "Vertices s = Some [(1, p1), (2, p2), (3, p3)]"
    and "Edges s = Some [(''a'', arc 1 2 c from), (''b'', seg 2 3), (''c'', seg 3 1)]"
  shows "validateSchema example_nx s
           = Inr ([[2, 3, 1]], \<lparr>nodes = [1, 2, 3], edges = [(1, 2), (2, 3), (3, 1)]\<rparr>)"
  using assms
  by (simp add: validateSchema_def createGraph_def findPath_def example_nx_def seg_def arc_def
        eval_defs)

text \<open>C9 as stated fails: the ends of this arc are not at one distance from its centre, and
  the schema is refused, with the \<open>ValueError\<close> of \<open>math.asin\<close>: the chord is 6 and the
  radius 1.\<close>

theorem inconsistent_arc_refused:
  "euclid (6, 1) (6, 0) \<noteq> euclid (6, 1) (0, 0)
   \<and> computeValues exact (json_load near_raw) = Inl ValueError
   \<and> price exact example_nx (json_load near_raw) = Inl ValueError"
proof -
  have n: "euclid (6, 1) (6, 0) \<noteq> euclid (6, 1) (0, 0)"
    by (simp add: euclid_def)
  have g: "arcGeometry exact 2 1 (6, 0) (0, 0) (6, 1) = Inl ValueError"
    by (simp add: arcGeometry_def eval_defs)
  have v: "computeValues exact (json_load near_raw) = Inl ValueError"
    by (simp add: computeValues_def near_load edgeValues_def arc_def arcValues_def g
          position_def eval_defs)
  have "validateSchema example_nx (json_load near_raw)
          = Inr ([[2, 3, 1]], \<lparr>nodes = [1, 2, 3], edges = [(1, 2), (2, 3), (3, 1)]\<rparr>)"
    by (rule triangle_validate) (simp_all add: near_load)
  with n v show ?thesis by (simp add: price_def)
qed

subsection \<open>Arcs whose ends are at one place\<close>

lemma arcGeometry_degenerate:
  assumes "zero_laws fl"
  shows "arcGeometry fl a b p p c = Inl ZeroDivisionError"
proof -
  from assms have z: "fsub fl x x = 0" "fsub fl x 0 = x" "fadd fl 0 0 = 0" "fsquare fl 0 = 0"
    "0 \<le> fsquare fl x" "fsqrt fl 0 = 0" "y \<noteq> 0 \<Longrightarrow> fdiv fl 0 y = 0"
    "0 \<le> x \<Longrightarrow> 0 \<le> y \<Longrightarrow> 0 \<le> fadd fl x y" for x y
    by (simp_all add: zero_laws_def)
  have c: "square_sum fl p p = 0" "dist_of fl p p = 0"
    by (simp_all add: square_sum_def dist_of_def z)
  have r: "0 \<le> square_sum fl p c"
    by (simp add: square_sum_def z)
  have n: "\<not> fsquare fl x < 0" for x
    using z(5)[of x] by (simp add: not_less)
  from arcGeometry_cases[OF r, of p a b] show ?thesis
    by (simp add: c z n Let_def)
qed

lemma computeValues_loop_first_error:
  assumes "\<forall>(e', ed') \<in> set pre. \<exists>v. edgeValues fl s ed' = Inr v"
    and "edgeValues fl s ed = Inl err"
  shows "computeValues_loop fl s (pre @ (e, ed) # post) vd0 = Inl err"
  using assms
proof (induction pre arbitrary: vd0)
  case Nil
  then show ?case by simp
next
  case (Cons x pre)
  obtain e' ed' where x: "x = (e', ed')" by (cases x)
  with Cons.prems obtain v where "edgeValues fl s ed' = Inr v" by auto
  with Cons x show ?case by simp
qed

lemma zero_laws_exact: "zero_laws exact"
  by (simp add: zero_laws_def)

text \<open>
  C7, as amended. Take an arc with a centre and a \<open>ClockwiseFrom\<close> vertex whose two vertex
  ids are not both that vertex, and whose two ends are at one place. Nothing checks the chord
  before the division: the edge geometry fails with the \<open>ZeroDivisionError\<close> of the division
  itself (by twice the radius when that is zero, as it is when the centre is at that place
  too, by the chord length of the box points otherwise). For a schema that passes the
  validation and whose edges before the arc are computed, this is the error of the whole
  computation, and no price is printed. The arithmetic is any one in which, as for floats,
  \<open>x - x\<close>, \<open>0 + 0\<close>, \<open>0 ** 2\<close>, \<open>sqrt(0)\<close> and \<open>0 / y\<close> are zero, \<open>x - 0\<close> is \<open>x\<close>, and
  squares and sums of numbers that are not negative are not negative.
\<close>

theorem degenerate_arc_division_by_zero:
  assumes "zero_laws fl"
    and "validateSchema nx s = Inr (cycles, g)"
    and "Edges s = Some (pre @ (e, ed) # post)"
    and "\<forall>(e', ed') \<in> set pre. \<exists>v. edgeValues fl s ed' = Inr v"
    and "Type ed \<noteq> ''LineSegment''"
    and "ClockwiseFrom ed = Some a" and "Center ed = Some c"
    and "arc_finish ed \<noteq> arc_start ed"
    and "position s (arc_start ed) = Inr p" and "position s (arc_finish ed) = Inr p"
  shows "edgeValues fl s ed = Inl ZeroDivisionError
       \<and> computeValues fl s = Inl ZeroDivisionError
       \<and> price fl nx s = Inl ZeroDivisionError
       \<and> main fl nx [(name, Inr s)] = ([], Some ZeroDivisionError)"
proof -
  from arcValues_start_finish[OF assms(6-10), of fl] assms(5)
  have ev: "edgeValues fl s ed = Inl ZeroDivisionError"
    by (simp add: edgeValues_def arcGeometry_degenerate[OF assms(1)])
  from computeValues_loop_first_error[OF assms(4) ev] assms(3)
  have cv: "computeValues fl s = Inl ZeroDivisionError"
    by (simp add: computeValues_def key_def)
  with assms(2) have pr: "price fl nx s = Inl ZeroDivisionError"
    by (simp add: price_def)
  with ev cv show ?thesis by (simp add: main_def)
qed

lemma degenerate_load:
  "json_load degenerate_raw =
     \<lparr>Vertices = Some [(1, (0, 0)), (2, (0, 0)), (3, (0, 8))],
      Edges = Some [(''a'', arc 1 2 (3, 4) 2), (''b'', seg 2 3), (''c'', seg 3 1)]\<rparr>"
  by (simp add: json_load_def degenerate_raw_def json_object_def setitem_def)

theorem degenerate_arc_division_by_zero_witness:
  "zero_laws exact
   \<and> validateSchema example_nx (json_load degenerate_raw)
     = Inr ([[2, 3, 1]], \<lparr>nodes = [1, 2, 3], edges = [(1, 2), (2, 3), (3, 1)]\<rparr>)
   \<and> position (json_load degenerate_raw) 2 = position (json_load degenerate_raw) 1
   \<and> edgeValues exact (json_load degenerate_raw) (arc 1 2 (3, 4) 2) = Inl ZeroDivisionError
   \<and> computeValues exact (json_load degenerate_raw) = Inl ZeroDivisionError
   \<and> price exact example_nx (json_load degenerate_raw) = Inl ZeroDivisionError
   \<and> main exact example_nx [(''degenerate.json'', Inr (json_load degenerate_raw))]
       = ([], Some ZeroDivisionError)"
proof -
  have h1: "validateSchema example_nx (json_load degenerate_raw)
     = Inr ([[2, 3, 1]], \<lparr>nodes = [1, 2, 3], edges = [(1, 2), (2, 3), (3, 1)]\<rparr>)"
    by (rule triangle_validate) (simp_all add: degenerate_load)
  have h2: "Edges (json_load degenerate_raw)
              = Some ([] @ (''a'', arc 1 2 (3, 4) 2) # [(''b'', seg 2 3), (''c'', seg 3 1)])"
    by (simp add: degenerate_load)
  have h3: "\<forall>(e', ed') \<in> set []. \<exists>v. edgeValues exact (json_load degenerate_raw) ed' = Inr v"
    by simp
  have h4: "Type (arc 1 2 (3, 4) 2) \<noteq> ''LineSegment''"
    and h5: "ClockwiseFrom (arc 1 2 (3, 4) 2) = Some 2"
    and h6: "Center (arc 1 2 (3, 4) 2) = Some (3, 4)"
    and h7: "arc_finish (arc 1 2 (3, 4) 2) \<noteq> arc_start (arc 1 2 (3, 4) 2)"
    and h8: "position (json_load degenerate_raw) (arc_start (arc 1 2 (3, 4) 2)) = Inr (0, 0)"
    and h9: "position (json_load degenerate_raw) (arc_finish (arc 1 2 (3, 4) 2)) = Inr (0, 0)"
    by (simp_all add: arc_def arc_start_def arc_finish_def position_def degenerate_load
          eval_defs)
  have p: "position (json_load degenerate_raw) 2 = position (json_load degenerate_raw) 1"
    by (simp add: position_def degenerate_load eval_defs)
  from degenerate_arc_division_by_zero[OF zero_laws_exact h1 h2 h3 h4 h5 h6 h7 h8 h9,
      of "''degenerate.json''"] h1 p zero_laws_exact
  show ?thesis by simp
qed

text \<open>C7 as stated fails: the error of an arc with both ends at one place is the
  \<open>ZeroDivisionError\<close> of the arithmetic, the one that an arc with a chord of length 6 and its
  centre on its start raises as well; it does not tell that the arc is degenerate.\<close>

theorem degenerate_arc_not_classified:
  "price exact example_nx (json_load degenerate_raw) = Inl ZeroDivisionError
   \<and> price exact example_nx (json_load pinned_raw) = Inl ZeroDivisionError
   \<and> arc_chord exact (json_load pinned_raw) (arc 1 2 (6, 0) 2) = 6"
proof -
  have g1: "arcGeometry exact 2 1 (0, 0) (0, 0) (3, 4) = Inl ZeroDivisionError"
    by (rule arcGeometry_degenerate[OF zero_laws_exact])
  have v1: "computeValues exact (json_load degenerate_raw) = Inl ZeroDivisionError"
    by (simp add: computeValues_def degenerate_load edgeValues_def arc_def arcValues_def g1
          position_def eval_defs)
  have g2: "arcGeometry exact 2 1 (6, 0) (0, 0) (6, 0) = Inl ZeroDivisionError"
    by (simp add: arcGeometry_def eval_defs)
  have v2: "computeValues exact (json_load pinned_raw) = Inl ZeroDivisionError"
    by (simp add: computeValues_def pinned_load edgeValues_def arc_def arcValues_def g2
          position_def eval_defs)
  have w1: "validateSchema example_nx (json_load degenerate_raw)
     = Inr ([[2, 3, 1]], \<lparr>nodes = [1, 2, 3], edges = [(1, 2), (2, 3), (3, 1)]\<rparr>)"
    by (rule triangle_validate) (simp_all add: degenerate_load)
  have w2: "validateSchema example_nx (json_load pinned_raw)
     = Inr ([[2, 3, 1]], \<lparr>nodes = [1, 2, 3], edges = [(1, 2), (2, 3), (3, 1)]\<rparr>)"
    by (rule triangle_validate) (simp_all add: pinned_load)
  have c: "arc_chord exact (json_load pinned_raw) (arc 1 2 (6, 0) 2) = 6"
    by (simp add: arc_chord_def arc_start_def arc_finish_def arc_def vertex_pos_def
          position_def pinned_load dist_of_def eval_defs)
  from v1 v2 w1 w2 c show ?thesis by (simp add: price_def)
qed

subsection \<open>Batches\<close>










subsection \<open>Hull expansion\<close>

lemma emap_Inr:
  "emap f xs = Inr ys \<Longrightarrow> ys = map (\<lambda>x. projr (f x)) xs \<and> (\<forall>x \<in> set xs. \<exists>y. f x = Inr y)"
proof (induction xs arbitrary: ys)
  case Nil
  then show ?case by simp
next
  case (Cons x xs)
  then show ?case by (auto simp: ebind_eq_Inr)
qed

lemma efilter_Inr:
  "efilter c xs = Inr ys \<Longrightarrow> ys = filter (\<lambda>x. projr (c x)) xs \<and> (\<forall>x \<in> set xs. \<exists>b. c x = Inr b)"
proof (induction xs arbitrary: ys)
  case Nil
  then show ?case by simp
next
  case (Cons x xs)
  then show ?case by (auto simp: ebind_eq_Inr)
qed

lemma hulls_loop_Inr:
  "hulls_loop f xs acc = Inr r \<Longrightarrow> \<exists>ys. emap f xs = Inr ys \<and> r = acc @ ys"
proof (induction xs arbitrary: acc)
  case Nil
  then show ?case by simp
next
  case (Cons x xs)
  from Cons.prems obtain h where h: "f x = Inr h" and r: "hulls_loop f xs (acc @ [h]) = Inr r"
    by (auto simp: ebind_eq_Inr)
  from Cons.IH[OF r] h show ?case by auto
qed

lemma extend_loop_Inr:
  "extend_loop vd xs acc = Inr r \<Longrightarrow>
     r = acc @ concat (map (\<lambda>x. box_points (the (map_of vd x))) xs)"
proof (induction xs arbitrary: acc)
  case Nil
  then show ?case by simp
next
  case (Cons x xs)
  from Cons.prems obtain v bp where v: "getitem vd x = Inr v" and bp: "boxPointsOf v = Inr bp"
    and r: "extend_loop vd xs (acc @ bp) = Inr r"
    by (auto simp: ebind_eq_Inr)
  from v have "map_of vd x = Some v" by (auto simp: getitem_def split: option.splits)
  moreover from bp have "bp = box_points v" by (cases v) (auto simp: boxPointsOf_def)
  ultimately show ?case using Cons.IH[OF r] by simp
qed

lemma index_Inr: "index xs v = Inr i \<Longrightarrow> i = index_in xs v"
proof (induction xs arbitrary: i)
  case Nil
  then show ?case by simp
next
  case (Cons x xs)
  then show ?case by (auto simp: index_in_def ebind_eq_Inr split: if_splits)
qed

lemma getitem_Inr: "getitem d k = Inr v \<longleftrightarrow> map_of d k = Some v"
  by (auto simp: getitem_def split: option.splits)

lemma extrusionsOn_Inr:
  assumes es: "Edges s = Some es" and d: "distinct (map fst es)"
    and cv: "computeValues fl s = Inr vd"
    and ex: "extrusionsOn s vd path = Inr xs"
  shows "xs = filter (outward_extrusion s path) (arcs_on_path s path)"
proof -
  from ex obtain on_path arcs where
    on_path: "emap (\<lambda>xy. edgeLookup xy s) (zip path (tl path)) = Inr on_path"
    and arcs: "efilter (\<lambda>arc. ebind (edgeType s arc) (\<lambda>t. Inr (t = ''CircularArc''))) on_path
                 = Inr arcs"
    and xs: "efilter (\<lambda>x.
         ebind (getitem vd x) (\<lambda>v.
         ebind (index path (start_id v)) (\<lambda>i.
         ebind (getitem vd x) (\<lambda>v'.
         ebind (index path (finish_id v')) (\<lambda>j. Inr (i > j)))))) arcs = Inr xs"
    by (auto simp: extrusionsOn_def ebind_eq_Inr)
  from cv es have loop: "computeValues_loop fl s es [] = Inr vd"
    by (simp add: computeValues_def key_def)
  note look = computeValues_loop_lookup[OF loop d, THEN conjunct1]
  from emap_Inr[OF on_path]
  have on_path': "on_path = map (\<lambda>xy. projr (edgeLookup xy s)) (zip path (tl path))" by simp
  have ty: "projr (ebind (edgeType s x) (\<lambda>t. Inr (t = ''CircularArc'')))
              = (Type (edge_of s x) = ''CircularArc'')
          \<and> map_of es x \<noteq> None"
    if "x \<in> set on_path" for x
  proof -
    from efilter_Inr[OF arcs] that obtain b where
      "ebind (edgeType s x) (\<lambda>t. Inr (t = ''CircularArc'')) = Inr b" by blast
    then obtain ed where g: "getitem es x = Inr ed"
      using es by (auto simp: edgeType_def ebind_eq_Inr key_def)
    then have "map_of es x = Some ed" by (simp add: getitem_Inr)
    with g show ?thesis using es
      by (simp add: edgeType_def key_def edge_of_def)
  qed
  from efilter_Inr[OF arcs] ty
  have arcs': "arcs = arcs_on_path s path"
    unfolding arcs_on_path_def on_path'[symmetric]
    by (auto intro: filter_cong)
  have out: "projr (ebind (getitem vd x) (\<lambda>v.
         ebind (index path (start_id v)) (\<lambda>i.
         ebind (getitem vd x) (\<lambda>v'.
         ebind (index path (finish_id v')) (\<lambda>j. Inr (i > j))))))
       = outward_extrusion s path x"
    if "x \<in> set arcs" for x
  proof -
    from that efilter_Inr[OF arcs] have xon: "x \<in> set on_path"
      and "projr (ebind (edgeType s x) (\<lambda>t. Inr (t = ''CircularArc'')))" by auto
    with ty[OF xon] have t: "Type (edge_of s x) = ''CircularArc''"
      and m: "map_of es x \<noteq> None" by auto
    from m obtain ed where ed: "map_of es x = Some ed" by auto
    then have mem: "(x, ed) \<in> set es" by (rule map_of_SomeD)
    from ed es have eo: "edge_of s x = ed" by (simp add: edge_of_def)
    from look mem obtain v where ev: "edgeValues fl s ed = Inr v" and mv: "map_of vd x = Some v"
      by auto
    from t eo ev have "arcValues fl s ed = Inr v" by (simp add: edgeValues_def)
    from arcValues_Inr[OF this] have sf: "start_id v = arc_start ed" "finish_id v = arc_finish ed"
      by auto
    from efilter_Inr[OF xs] that obtain b where b: "ebind (getitem vd x) (\<lambda>v.
         ebind (index path (start_id v)) (\<lambda>i.
         ebind (getitem vd x) (\<lambda>v'.
         ebind (index path (finish_id v')) (\<lambda>j. Inr (i > j))))) = Inr b" by blast
    with mv obtain i j where i: "index path (start_id v) = Inr i"
      and j: "index path (finish_id v) = Inr j" and "b = (i > j)"
      by (auto simp: ebind_eq_Inr getitem_Inr)
    with index_Inr[OF i] index_Inr[OF j] sf eo have "b = outward_extrusion s path x"
      by (simp add: outward_extrusion_def)
    with b show ?thesis by simp
  qed
  from efilter_Inr[OF xs] out show ?thesis
    unfolding arcs'[symmetric] by (auto intro: filter_cong)
qed

lemma pairs_loop_Inr:
  assumes es: "Edges s = Some es" and d: "distinct (map fst es)"
    and cv: "computeValues fl s = Inr vd"
  shows "pairs_loop nx s g vd ps acc = Inr r \<Longrightarrow>
           r = acc @ concat (map (extrusion_points nx s g vd) ps)"
proof (induction ps arbitrary: acc)
  case Nil
  then show ?case by simp
next
  case (Cons ab ps)
  obtain a b where ab: "ab = (a, b)" by (cases ab)
  from Cons.prems ab obtain path xs acc' where p: "shortest_path nx g a b = Inr path"
    and x: "extrusionsOn s vd path = Inr xs"
    and e: "extend_loop vd xs acc = Inr acc'"
    and r: "pairs_loop nx s g vd ps acc' = Inr r"
    by (auto simp: ebind_eq_Inr)
  from extrusionsOn_Inr[OF es d cv x] extend_loop_Inr[OF e] p ab
  have "acc' = acc @ extrusion_points nx s g vd ab"
    by (simp add: extrusion_points_def)
  with Cons.IH[OF r] show ?case by simp
qed

lemma position_pointLookup:
  assumes "Vertices s = Some vs" and "distinct (map fst vs)" and "pointLookup h s = Inr k"
  shows "position s k = Inr h"
proof -
  from assms(1,3)
  have "first (map fst (filter (\<lambda>(k, pos). fst pos = fst h \<and> snd pos = snd h) vs)) = Inr k"
    by (simp add: pointLookup_def key_def)
  then obtain kp rest where
    f: "filter (\<lambda>(k, pos). fst pos = fst h \<and> snd pos = snd h) vs = kp # rest" and "fst kp = k"
    by (auto simp: first_def split: list.splits)
  from f have "kp \<in> set (filter (\<lambda>(k, pos). fst pos = fst h \<and> snd pos = snd h) vs)"
    by simp
  with \<open>fst kp = k\<close> have "(k, h) \<in> set vs" by (auto simp: prod_eq_iff)
  with assms(2) have "map_of vs k = Some h" by simp
  with assms(1) show ?thesis by (simp add: position_def key_def getitem_def)
qed

lemma emap_position_pointLookup:
  assumes "Vertices s = Some vs" and "distinct (map fst vs)"
    and "emap (\<lambda>h. pointLookup h s) hs = Inr ids"
  shows "emap (position s) ids = Inr hs"
  using assms(3)
proof (induction hs arbitrary: ids)
  case Nil
  then show ?case by simp
next
  case (Cons h hs)
  then show ?case
    by (auto simp: ebind_eq_Inr position_pointLookup[OF assms(1,2)])
qed

lemma emap_position: "emap (position s) ids = Inr pts \<Longrightarrow> pts = map (vertex_pos s) ids"
  using emap_Inr[of "position s" ids pts] by (auto simp: vertex_pos_def)

lemma walk_eq: "hul \<noteq> [] \<Longrightarrow> zip (hul @ [hd hul]) (tl (hul @ [hd hul])) = walk hul"
proof (cases hul)
  case Nil
  assume "hul \<noteq> []"
  with Nil show ?thesis by simp
next
  case (Cons a list)
  have "zip ((a # list) @ [a]) (list @ [a]) = zip (a # list) (list @ [a])"
    by (simp only: zip_append1) simp
  with Cons show ?thesis by (simp add: walk_def)
qed


lemma emap_compose:
  assumes "emap F xs = Inr ys" and "emap f ys = Inr zs"
    and "\<And>x y z. F x = Inr y \<Longrightarrow> f y = Inr z \<Longrightarrow> z = G x"
  shows "zs = map G xs"
  using assms(1,2)
proof (induction xs arbitrary: ys zs)
  case Nil
  then show ?case by simp
next
  case (Cons x xs)
  from Cons.prems(1) obtain y ys' where y: "F x = Inr y" and ys': "emap F xs = Inr ys'"
    and ys: "ys = y # ys'"
    by (auto simp: ebind_eq_Inr)
  from Cons.prems(2) ys obtain z zs' where z: "f y = Inr z" and zs': "emap f ys' = Inr zs'"
    and zs: "zs = z # zs'"
    by (auto simp: ebind_eq_Inr)
  from Cons.IH[OF ys' zs'] assms(3)[OF y z] zs show ?case by simp
qed

lemma inner_hull_ids:
  assumes vs: "Vertices s = Some vs" and dv: "distinct (map fst vs)"
    and "ebind (emap (position s) c) (\<lambda>pts. emap (\<lambda>h. pointLookup h s) (grahams_hull fl pts))
           = Inr ids"
  shows "ids = map (\<lambda>h. projr (pointLookup h s)) (initial_hull_of fl s c)
       \<and> emap (position s) ids = Inr (initial_hull_of fl s c)"
proof -
  from assms(3) obtain pts where pts: "emap (position s) c = Inr pts"
    and ids: "emap (\<lambda>h. pointLookup h s) (grahams_hull fl pts) = Inr ids"
    by (auto simp: ebind_eq_Inr)
  from emap_position[OF pts] have "grahams_hull fl pts = initial_hull_of fl s c"
    by (simp add: initial_hull_of_def)
  with emap_Inr[OF ids] emap_position_pointLookup[OF vs dv ids] show ?thesis by simp
qed

lemma expandHull_Inr:
  assumes es: "Edges s = Some es" and d: "distinct (map fst es)"
    and cv: "computeValues fl s = Inr vd"
    and pos: "emap (position s) ids = Inr pts"
    and ex: "expandHull fl nx s g vd ids = Inr h"
  shows "h = grahams_hull fl (pts @ concat (map (extrusion_points nx s g vd) (walk ids)))"
proof -
  from ex pos obtain h0 r where h0: "first ids = Inr h0"
    and r: "pairs_loop nx s g vd (zip (ids @ [h0]) (tl (ids @ [h0]))) pts = Inr r"
    and h: "h = grahams_hull fl r"
    by (auto simp: expandHull_def ebind_eq_Inr Let_def)
  from h0 have ne: "ids \<noteq> []" and "h0 = hd ids"
    by (auto simp: first_def split: list.splits)
  with r walk_eq[OF ne] have "pairs_loop nx s g vd (walk ids) pts = Inr r" by simp
  from pairs_loop_Inr[OF es d cv this] h show ?thesis by simp
qed

lemma final_hull_step:
  assumes "Vertices s = Some vs" and "distinct (map fst vs)"
    and "Edges s = Some es" and "distinct (map fst es)"
    and "computeValues fl s = Inr vd"
    and Fc: "ebind (emap (position s) c)
               (\<lambda>pts. emap (\<lambda>h. pointLookup h s) (grahams_hull fl pts)) = Inr ids"
    and fz: "(if length (filter (\<lambda>(e, ed). Type ed = ''CircularArc'') es) = 0
              then (\<lambda>hul. emap (position s) hul) else expandHull fl nx s g vd) ids = Inr z"
  shows "z = final_hull_of fl nx s g vd c"
proof -
  note ih = inner_hull_ids[OF assms(1,2) Fc]
  have noarc: "(length (filter (\<lambda>(e, ed). Type ed = ''CircularArc'') es) = 0)
                 = (\<forall>(e, ed) \<in> set (the (Edges s)). Type ed \<noteq> ''CircularArc'')"
    using assms(3) by (auto simp: filter_empty_conv)
  show ?thesis
  proof (cases "length (filter (\<lambda>(e, ed). Type ed = ''CircularArc'') es) = 0")
    case True
    with fz have "emap (position s) ids = Inr z" by simp
    with ih have "z = initial_hull_of fl s c" by simp
    with True noarc show ?thesis by (simp add: final_hull_of_def)
  next
    case False
    with fz have ex: "expandHull fl nx s g vd ids = Inr z" by simp
    from False noarc
    have "\<not> (\<forall>(e, ed) \<in> set (the (Edges s)). Type ed \<noteq> ''CircularArc'')" by blast
    with expandHull_Inr[OF assms(3,4,5) ih[THEN conjunct2] ex] ih
    show ?thesis by (simp only: final_hull_of_def if_False)
  qed
qed

lemma computeConvexHull_Inr_loops:
  assumes "Edges s = Some es" and "computeConvexHull fl nx s g vd = Inr hulls"
  shows "\<exists>initial.
           emap (\<lambda>path. ebind (emap (position s) path)
                   (\<lambda>pts. emap (\<lambda>h. pointLookup h s) (grahams_hull fl pts)))
             (cycle_basis nx g) = Inr initial
         \<and> emap (if length (filter (\<lambda>(e, ed). Type ed = ''CircularArc'') es) = 0
                  then (\<lambda>hul. emap (position s) hul) else expandHull fl nx s g vd) initial
             = Inr hulls"
proof -
  let ?f = "if length (filter (\<lambda>(e, ed). Type ed = ''CircularArc'') es) = 0
            then (\<lambda>hul. emap (position s) hul) else expandHull fl nx s g vd"
  from assms obtain initial where inner: "computeInnerHull fl nx s g = Inr initial"
    and loop: "hulls_loop ?f initial [] = Inr hulls"
    by (auto simp: computeConvexHull_def ebind_eq_Inr key_def split: if_splits)
  from inner have "emap (\<lambda>path. ebind (emap (position s) path)
                   (\<lambda>pts. emap (\<lambda>h. pointLookup h s) (grahams_hull fl pts)))
             (cycle_basis nx g) = Inr initial"
    by (auto simp: computeInnerHull_def findPath_def Let_def ebind_eq_Inr split: if_splits)
  with hulls_loop_Inr[OF loop] show ?thesis by auto
qed

text \<open>
  C4. When the schema has no \<open>CircularArc\<close> edge, the final hull of every cycle is its
  initial Graham-scan hull. Otherwise the pairs of neighbours of the initial hull are walked;
  for each pair the shortest path between the two vertices is taken, the \<open>CircularArc\<close>
  edges on it whose start (\<open>ClockwiseFrom\<close>) vertex has a greater index in the path than
  their finish vertex are the extrusions, the box points of every extrusion are added to
  the points of the initial hull, and the final hull is the Graham-scan hull of all these
  points.
\<close>

theorem computeConvexHull_final_hulls:
  assumes "Vertices s = Some vs" and "distinct (map fst vs)"
    and "Edges s = Some es" and "distinct (map fst es)"
    and "computeValues fl s = Inr vd"
    and "computeConvexHull fl nx s g vd = Inr hulls"
  shows "hulls = map (final_hull_of fl nx s g vd) (cycle_basis nx g)"
proof -
  from computeConvexHull_Inr_loops[OF assms(3,6)] obtain initial where
    F: "emap (\<lambda>path. ebind (emap (position s) path)
                (\<lambda>pts. emap (\<lambda>h. pointLookup h s) (grahams_hull fl pts)))
          (cycle_basis nx g) = Inr initial"
    and f: "emap (if length (filter (\<lambda>(e, ed). Type ed = ''CircularArc'') es) = 0
                  then (\<lambda>hul. emap (position s) hul) else expandHull fl nx s g vd) initial
              = Inr hulls"
    by blast
  show ?thesis
    by (rule emap_compose[OF F f]) (rule final_hull_step[OF assms(1-5)])
qed


lemma keep_left_pop4:
  "keep_left_pop fl [a, b, p, q] r =
     (if turn fl p q r \<noteq> 1 then keep_left_pop fl [a, b, p] r else [a, b, p, q])"
  using keep_left_pop_step[of fl "[a, b]" p q r] by simp

lemma dome_initial_hull:
  "grahams_hull exact [(6, 0), (0, 8), (0, 0)] = [(0, 0), (6, 0), (0, 8)]"
  by (simp add: grahams_hull_def keep_left_def keep_left_pop2 keep_left_pop3 turn_def
        sort_key_def insort_key_def)

lemma dome_final_hull:
  "grahams_hull exact [(0, 0), (6, 0), (0, 8), (6, 1), (6, - 1), (0, - 1), (0, 1)]
     = [(0, - 1), (6, - 1), (6, 1), (0, 8)]"
  by (simp add: grahams_hull_def keep_left_def keep_left_pop2 keep_left_pop3 keep_left_pop4
        turn_def sort_key_def insort_key_def)

lemma dome_computeInnerHull:
  "computeInnerHull exact example_nx (json_load dome_raw)
     \<lparr>nodes = [1, 2, 3], edges = [(1, 2), (2, 3), (3, 1)]\<rparr> = Inr [[1, 2, 3]]"
  by (simp add: computeInnerHull_def findPath_def example_nx_def dome_load position_def
        dome_initial_hull pointLookup_def eval_defs)

lemma dome_expandHull:
  "expandHull exact example_nx (json_load dome_raw)
     \<lparr>nodes = [1, 2, 3], edges = [(1, 2), (2, 3), (3, 1)]\<rparr>
     [(''a'', ArcValues 2 1 (3, 4) 5 6 (3, 0) (10 * arcsin (3 / 5)) 1
                   [(6, 1), (6, - 1), (0, - 1), (0, 1)]),
      (''b'', SegmentValues 2 3 10), (''c'', SegmentValues 3 1 8)] [1, 2, 3]
     = Inr [(0, - 1), (6, - 1), (6, 1), (0, 8)]"
  by (simp add: expandHull_def dome_load position_def example_nx_def extrusionsOn_def
        edgeLookup_def edgeType_def boxPointsOf_def seg_def arc_def dome_final_hull eval_defs)

lemma dome_computeConvexHull:
  "computeConvexHull exact example_nx (json_load dome_raw)
     \<lparr>nodes = [1, 2, 3], edges = [(1, 2), (2, 3), (3, 1)]\<rparr>
     [(''a'', ArcValues 2 1 (3, 4) 5 6 (3, 0) (10 * arcsin (3 / 5)) 1
                   [(6, 1), (6, - 1), (0, - 1), (0, 1)]),
      (''b'', SegmentValues 2 3 10), (''c'', SegmentValues 3 1 8)]
     = Inr [[(0, - 1), (6, - 1), (6, 1), (0, 8)]]"
proof -
  have e: "key (Edges (json_load dome_raw))
             = Inr [(''a'', arc 1 2 (3, 4) 2), (''b'', seg 2 3), (''c'', seg 3 1)]"
    by (simp add: dome_load key_def)
  have t: "Type (arc 1 2 (3, 4) 2) = ''CircularArc''" by (simp add: arc_def)
  show ?thesis
    by (simp add: computeConvexHull_def dome_computeInnerHull e t dome_expandHull)
qed

theorem computeConvexHull_final_hulls_witness:
  "map (final_hull_of exact example_nx (json_load dome_raw)
          \<lparr>nodes = [1, 2, 3], edges = [(1, 2), (2, 3), (3, 1)]\<rparr>
          [(''a'', ArcValues 2 1 (3, 4) 5 6 (3, 0) (10 * arcsin (3 / 5)) 1
                        [(6, 1), (6, - 1), (0, - 1), (0, 1)]),
           (''b'', SegmentValues 2 3 10), (''c'', SegmentValues 3 1 8)]) [[2, 3, 1]]
     = [[(0, - 1), (6, - 1), (6, 1), (0, 8)]]
   \<and> map (final_hull_of exact example_nx (json_load square_raw)
          \<lparr>nodes = [1, 2, 3, 4], edges = [(1, 2), (2, 3), (3, 4), (4, 1)]\<rparr>
          [(''a'', SegmentValues 1 2 1), (''b'', SegmentValues 2 3 1),
           (''c'', SegmentValues 3 4 1), (''d'', SegmentValues 4 1 1)]) [[2, 3, 4, 1]]
     = [[(0, 0), (1, 0), (1, 1), (0, 1)]]"
proof -
  have dv: "Vertices (json_load dome_raw) = Some [(1, (0, 0)), (2, (6, 0)), (3, (0, 8))]"
    and dd: "distinct (map fst [(1 :: int, (0 :: real, 0 :: real)), (2, (6, 0)), (3, (0, 8))])"
    and de: "Edges (json_load dome_raw)
               = Some [(''a'', arc 1 2 (3, 4) 2), (''b'', seg 2 3), (''c'', seg 3 1)]"
    and ded: "distinct (map fst [(''a'', arc 1 2 (3, 4) 2), (''b'', seg 2 3), (''c'', seg 3 1)])"
    by (simp_all add: dome_load)
  have sv: "Vertices (json_load square_raw)
              = Some [(1, (0, 0)), (2, (1, 0)), (3, (1, 1)), (4, (0, 1))]"
    and sd: "distinct (map fst [(1 :: int, (0 :: real, 0 :: real)), (2, (1, 0)), (3, (1, 1)),
                                (4, (0, 1))])"
    and se: "Edges (json_load square_raw)
               = Some [(''a'', seg 1 2), (''b'', seg 2 3), (''c'', seg 3 4), (''d'', seg 4 1)]"
    and sed: "distinct (map fst [(''a'', seg 1 2), (''b'', seg 2 3), (''c'', seg 3 4),
                                 (''d'', seg 4 1)])"
    by (simp_all add: square_load)
  from computeConvexHull_final_hulls[OF dv dd de ded dome_values dome_computeConvexHull]
    computeConvexHull_final_hulls[OF sv sd se sed square_values square_computeConvexHull]
  show ?thesis by (simp add: example_nx_def)
qed

subsection \<open>The price\<close>







lemma twin_load:
  "json_load twin_raw =
     \<lparr>Vertices = Some [(1, (0, 0)), (2, (1, 0)), (3, (1, 1)), (4, (0, 1)),
                       (5, (3, 0)), (6, (5, 0)), (7, (5, 1)), (8, (3, 1))],
      Edges = Some [(''a'', seg 1 2), (''b'', seg 2 3), (''c'', seg 3 4), (''d'', seg 4 1),
                    (''e'', seg 5 6), (''f'', seg 6 7), (''g'', seg 7 8), (''h'', seg 8 5)]\<rparr>"
  by (simp add: json_load_def twin_raw_def json_object_def setitem_def)

lemma sqrt_4 [simp]: "sqrt 4 = 2" using real_sqrt_abs[of 2] by simp



lemma rectangle_grahams_hull:
  "grahams_hull exact [(5, 0), (5, 1), (3, 1), (3, 0)] = [(3, 0), (5, 0), (5, 1), (3, 1)]"
  by (simp add: grahams_hull_def keep_left_def keep_left_pop2 keep_left_pop3 turn_def
        sort_key_def insort_key_def)







subsection \<open>Minimum bounding rectangle\<close>






lemma height_numerator_ends [simp]:
  "height_numerator exact e (fst e) = 0" "height_numerator exact e (snd e) = 0"
  by (simp_all add: height_numerator_def algebra_simps)





























subsection \<open>Orientation\<close>

lemma turn_cross: "turn exact p q r = 1 \<longleftrightarrow> 0 < cross p q r"
  by (simp add: turn_def cross_def Let_def)

lemma ahead_lexpos: "ahead up a b \<longleftrightarrow> lexpos (vec up a b)"
  by (auto simp: ahead_def lexpos_def vec_def less_prod_def)

lemma cross_det: "cross a b c = det (vec up a b) (vec up a c)"
  by (simp add: cross_def det_def vec_def algebra_simps)

lemma cross_det_mid: "cross a b c = det (vec up a b) (vec up b c)"
  by (simp add: cross_def det_def vec_def algebra_simps)

lemma cross_det_back: "cross a b c = det (vec up c b) (vec up a b)"
  by (simp add: cross_def det_def vec_def algebra_simps)

lemma det_order:
  assumes "lexpos x" and "lexpos y" and "lexpos z" and "0 \<le> det x y" and "0 \<le> det y z"
  shows "0 \<le> det x z"
proof (cases "0 < fst y")
  case True
  have "det x z * fst y = det y z * fst x + det x y * fst z"
    by (simp add: det_def algebra_simps)
  moreover from assms have "0 \<le> det y z * fst x" "0 \<le> det x y * fst z"
    by (auto simp: lexpos_def intro: mult_nonneg_nonneg)
  ultimately have "0 \<le> det x z * fst y" by linarith
  with True show ?thesis by (simp add: zero_le_mult_iff)
next
  case False
  with assms(2) have y: "fst y = 0" "0 < snd y" by (auto simp: lexpos_def)
  with assms(5) have "0 \<le> - (fst z * snd y)" by (simp add: det_def)
  with y have "fst z \<le> 0" by (simp add: mult_le_0_iff)
  with assms(3) have z: "fst z = 0" "0 < snd z" by (auto simp: lexpos_def)
  from assms(1) have "0 \<le> fst x" by (auto simp: lexpos_def)
  with z show ?thesis by (simp add: det_def)
qed

lemma det_order_strict:
  assumes "lexpos x" and "lexpos y" and "lexpos z" and "0 < det x y" and "0 < det y z"
  shows "0 < det x z"
proof (cases "0 < fst y")
  case True
  have id: "det x z * fst y = det y z * fst x + det x y * fst z"
    by (simp add: det_def algebra_simps)
  have "0 < fst x"
  proof (rule ccontr)
    assume "\<not> 0 < fst x"
    with assms(1) have x: "fst x = 0" "0 < snd x" by (auto simp: lexpos_def)
    with True have "0 < fst y * snd x" by simp
    with x assms(4) show False by (simp add: det_def)
  qed
  with assms(5) have "0 < det y z * fst x" by simp
  moreover from assms have "0 \<le> det x y * fst z"
    by (auto simp: lexpos_def intro: mult_nonneg_nonneg)
  ultimately have "0 < det x z * fst y" using id by linarith
  with True show ?thesis by (simp add: zero_less_mult_iff)
next
  case False
  with assms(2) have y: "fst y = 0" "0 < snd y" by (auto simp: lexpos_def)
  with assms(5) have "0 < - (fst z * snd y)" by (simp add: det_def)
  with y have "fst z < 0" by (simp add: mult_less_0_iff)
  with assms(3) show ?thesis by (auto simp: lexpos_def)
qed

text \<open>Three facts on points that a scan meets in order.\<close>

lemma ahead_trans: "ahead up a b \<Longrightarrow> ahead up b c \<Longrightarrow> ahead up a c"
  by (auto simp: ahead_def split: if_splits)

lemma ahead_irrefl: "\<not> ahead up a a"
  by (simp add: ahead_def)

lemma ahead_total: "a = b \<or> ahead up a b \<or> ahead up b a"
  by (auto simp: ahead_def)

lemma cross_same [simp]: "cross a b a = 0" "cross a b b = 0" "cross a a b = 0"
  by (simp_all add: cross_def)

lemma vec_add: "vec up a c = (fst (vec up a b) + fst (vec up b c), snd (vec up a b) + snd (vec up b c))"
  by (simp add: vec_def)

lemma lexpos_add: "lexpos v \<Longrightarrow> lexpos w \<Longrightarrow> lexpos (fst v + fst w, snd v + snd w)"
  by (auto simp: lexpos_def)

lemma chain_extend:
  assumes "ahead up a b" and "ahead up b c" and "c = d \<or> ahead up c d"
    and "0 < cross a b c" and "0 < cross b c d"
  shows "0 < cross a b d"
proof -
  from assms(5) have cd: "ahead up c d" using assms(3) by auto
  have bd: "ahead up b d" by (rule ahead_trans[OF assms(2) cd])
  from assms(4) have 1: "0 < det (vec up a b) (vec up b c)" by (simp add: cross_det_mid[of a b c up])
  have "cross b c d = det (vec up b c) (vec up b d)" by (rule cross_det)
  with assms(5) have 2: "0 < det (vec up b c) (vec up b d)" by simp
  from det_order_strict[OF _ _ _ 1 2] assms(1,2) bd
  have "0 < det (vec up a b) (vec up b d)" by (simp add: ahead_lexpos)
  then show ?thesis by (simp add: cross_det_mid[of a b d up])
qed

lemma bridge_right:
  assumes "ahead up s t" and "ahead up s r" and "s = q \<or> ahead up s q"
    and "0 \<le> cross s t q" and "cross s t r \<le> 0"
  shows "0 \<le> cross s r q"
proof (cases "s = q")
  case True
  then show ?thesis by simp
next
  case False
  with assms(3) have sq: "ahead up s q" by simp
  have "cross s r t = - cross s t r" by (simp add: cross_def algebra_simps)
  with assms(5) have 1: "0 \<le> det (vec up s r) (vec up s t)" by (simp add: cross_det[of s r t up])
  from assms(4) have 2: "0 \<le> det (vec up s t) (vec up s q)" by (simp add: cross_det[of s t q up])
  from det_order[OF _ _ _ 1 2] assms(1,2) sq
  have "0 \<le> det (vec up s r) (vec up s q)" by (simp add: ahead_lexpos)
  then show ?thesis by (simp add: cross_det[of s r q up])
qed

lemma bridge_left:
  assumes "ahead up u s" and "ahead up q s" and "ahead up s r"
    and "0 \<le> cross u s q" and "0 < cross u s r"
  shows "0 \<le> cross s r q"
proof -
  have "cross u s q = det (vec up q s) (vec up u s)" by (rule cross_det_back)
  with assms(4) have 1: "0 \<le> det (vec up q s) (vec up u s)" by simp
  from assms(5) have 2: "0 \<le> det (vec up u s) (vec up s r)"
    by (simp add: cross_det_mid[of u s r up])
  from det_order[OF _ _ _ 1 2] assms(1,2,3)
  have 3: "0 \<le> det (vec up q s) (vec up s r)" by (simp add: ahead_lexpos)
  have "cross s r q = det (vec up q s) (vec up s r)"
    by (simp add: cross_def det_def vec_def algebra_simps)
  with 3 show ?thesis by simp
qed


subsection \<open>Neighbours in a list\<close>

lemma adjacent_snoc:
  "adjacent a b (S @ [r]) \<longleftrightarrow> adjacent a b S \<or> (S \<noteq> [] \<and> a = last S \<and> b = r)"
proof
  assume "adjacent a b (S @ [r])"
  then obtain us vs where e: "S @ [r] = us @ a # b # vs" by (auto simp: adjacent_def)
  show "adjacent a b S \<or> (S \<noteq> [] \<and> a = last S \<and> b = r)"
  proof (cases vs rule: rev_cases)
    case Nil
    with e have "S @ [r] = (us @ [a]) @ [b]" by simp
    then have "S = us @ [a]" "r = b" by (simp_all only: append1_eq_conv)
    then show ?thesis by simp
  next
    case (snoc ws w)
    with e have "S @ [r] = (us @ a # b # ws) @ [w]" by simp
    then have "S = us @ a # b # ws" by (simp only: append1_eq_conv)
    then show ?thesis by (auto simp: adjacent_def)
  qed
next
  assume "adjacent a b S \<or> (S \<noteq> [] \<and> a = last S \<and> b = r)"
  then show "adjacent a b (S @ [r])"
  proof
    assume "adjacent a b S"
    then obtain us vs where "S = us @ a # b # vs" by (auto simp: adjacent_def)
    then have "S @ [r] = us @ a # b # (vs @ [r])" by simp
    then show ?thesis unfolding adjacent_def by blast
  next
    assume h: "S \<noteq> [] \<and> a = last S \<and> b = r"
    then have "S @ [r] = butlast S @ a # b # []" by simp
    then show ?thesis unfolding adjacent_def by blast
  qed
qed

lemma adjacent_append_left: "adjacent a b S \<Longrightarrow> adjacent a b (S @ T)"
  by (auto simp: adjacent_def) (metis append.assoc append_Cons)

lemma adjacent_append_right: "adjacent a b T \<Longrightarrow> adjacent a b (S @ T)"
  by (auto simp: adjacent_def) (metis append.assoc)

lemma adjacent_two: "adjacent a b [x, y] \<longleftrightarrow> a = x \<and> b = y"
  using adjacent_snoc[of a b "[x]" y] by (auto simp: adjacent_def)

lemma adjacent_last_two: "adjacent a b (us @ [a, b])"
  unfolding adjacent_def by blast

lemma turns_prefix: "turns (S @ T) \<Longrightarrow> turns S"
  unfolding turns_def by (metis append.assoc append_Cons)

lemma turns_snoc:
  "turns (S @ [r]) \<longleftrightarrow> turns S \<and> (\<forall>us a b. S = us @ [a, b] \<longrightarrow> 0 < cross a b r)"
proof (intro iffI conjI allI impI)
  assume t: "turns (S @ [r])"
  then show "turns S" by (rule turns_prefix)
  fix us a b assume "S = us @ [a, b]"
  then have "S @ [r] = us @ a # b # r # []" by simp
  with t show "0 < cross a b r" unfolding turns_def by blast
next
  assume h: "turns S \<and> (\<forall>us a b. S = us @ [a, b] \<longrightarrow> 0 < cross a b r)"
  show "turns (S @ [r])"
    unfolding turns_def
  proof (intro allI impI)
    fix us a b c vs assume e: "S @ [r] = us @ a # b # c # vs"
    show "0 < cross a b c"
    proof (cases vs rule: rev_cases)
      case Nil
      with e have "S @ [r] = (us @ [a, b]) @ [c]" by simp
      then have "S = us @ [a, b]" "r = c" by (simp_all only: append1_eq_conv)
      with h show ?thesis by blast
    next
      case (snoc ws w)
      with e have "S @ [r] = (us @ a # b # c # ws) @ [w]" by simp
      then have "S = us @ a # b # c # ws" by (simp only: append1_eq_conv)
      with h show ?thesis unfolding turns_def by blast
    qed
  qed
qed

lemma supports_prefix: "supports P (S @ T) \<Longrightarrow> supports P S"
  unfolding supports_def by (blast intro: adjacent_append_left)

lemma chain_prefix: "chain up (S @ T) \<Longrightarrow> chain up S"
  by (simp add: chain_def sorted_wrt_append)

lemma chain_snoc: "chain up (S @ [r]) \<longleftrightarrow> chain up S \<and> (\<forall>x \<in> set S. ahead up x r)"
  by (auto simp: chain_def sorted_wrt_append)

lemma two_last:
  assumes "1 < length S"
  shows "S = butlast (butlast S) @ [S ! (length S - 2), S ! (length S - 1)]"
proof -
  from assms have ne: "S \<noteq> []" "butlast S \<noteq> []" by (auto simp: length_greater_0_conv[symmetric] simp del: length_greater_0_conv)
  have "S = butlast S @ [last S]" using ne by simp
  moreover have "butlast S = butlast (butlast S) @ [last (butlast S)]" using ne by simp
  moreover have "last S = S ! (length S - 1)" using ne by (simp add: last_conv_nth)
  moreover have "last (butlast S) = S ! (length S - 2)"
    using ne assms by (simp add: last_conv_nth nth_butlast numeral_2_eq_2)
  ultimately show ?thesis by (metis append.assoc append_Cons append_Nil)
qed


subsection \<open>The scan\<close>

lemma keep_left_pop_induct [case_names 1]:
  assumes "\<And>S r. (1 < length S \<and> turn fl (S ! (length S - 2)) (S ! (length S - 1)) r \<noteq> 1
              \<Longrightarrow> P (butlast S) r) \<Longrightarrow> P S r"
  shows "P S r"
proof (induction "length S" arbitrary: S rule: less_induct)
  case less
  show ?case
  proof (rule assms)
    assume "1 < length S \<and> turn fl (S ! (length S - 2)) (S ! (length S - 1)) r \<noteq> 1"
    then have "S \<noteq> []" by auto
    then have "length (butlast S) < length S" by simp
    then show "P (butlast S) r" by (rule less)
  qed
qed

lemma keep_left_pop_inv:
  "chain up S \<Longrightarrow> turns S \<Longrightarrow> supports P S \<Longrightarrow> S \<noteq> []
   \<Longrightarrow> (\<forall>x \<in> set S. x = r \<or> ahead up x r)
   \<Longrightarrow> (\<forall>q \<in> P. (q = last S \<or> ahead up (last S) q) \<longrightarrow> 0 \<le> cross (last S) r q)
   \<Longrightarrow> (\<exists>T. S = keep_left_pop exact S r @ T) \<and> keep_left_pop exact S r \<noteq> []
       \<and> hd (keep_left_pop exact S r) = hd S
       \<and> (\<forall>us a b. keep_left_pop exact S r = us @ [a, b] \<longrightarrow> 0 < cross a b r)
       \<and> (\<forall>q \<in> P. (q = last (keep_left_pop exact S r) \<or> ahead up (last (keep_left_pop exact S r)) q)
              \<longrightarrow> 0 \<le> cross (last (keep_left_pop exact S r)) r q)"
proof (induction S r rule: keep_left_pop_induct[where fl = exact])
  case (1 S r)
  let ?n = "length S"
  show ?case
  proof (cases "1 < ?n \<and> turn exact (S ! (?n - 2)) (S ! (?n - 1)) r \<noteq> 1")
    case True
    define p where "p = S ! (?n - 2)"
    define t where "t = S ! (?n - 1)"
    define ys where "ys = butlast (butlast S)"
    from True two_last[of S] have S: "S = ys @ [p, t]" by (simp add: p_def t_def ys_def)
    then have bl: "butlast S = ys @ [p]" by (simp add: butlast_append)
    from True have tr: "cross p t r \<le> 0"
      using turn_cross[of p t r] by (simp add: p_def t_def not_less)
    from True have eq: "keep_left_pop exact S r = keep_left_pop exact (butlast S) r"
      by (subst keep_left_pop.simps) simp
    from "1.prems"(1) S have pt: "ahead up p t" by (simp add: chain_def sorted_wrt_append)
    from "1.prems"(5) S have "t = r \<or> ahead up t r" by simp
    with pt have pr: "ahead up p r" by (auto intro: ahead_trans)
    have br: "\<forall>q \<in> P. (q = last (butlast S) \<or> ahead up (last (butlast S)) q)
                 \<longrightarrow> 0 \<le> cross (last (butlast S)) r q"
    proof (intro ballI impI)
      fix q assume q: "q \<in> P" and o: "q = last (butlast S) \<or> ahead up (last (butlast S)) q"
      from S have "adjacent p t S" by (simp add: adjacent_last_two)
      with "1.prems"(3) q have "0 \<le> cross p t q" unfolding supports_def by blast
      from bridge_right[OF pt pr _ this tr] o bl show "0 \<le> cross (last (butlast S)) r q"
        by auto
    qed
    have S': "S = butlast S @ [t]" using S bl by simp
    have c: "chain up (butlast S)" using "1.prems"(1) S' chain_prefix by metis
    have tu: "turns (butlast S)" using "1.prems"(2) S' turns_prefix by metis
    have su: "supports P (butlast S)" using "1.prems"(3) S' supports_prefix by metis
    have ne: "butlast S \<noteq> []" using bl by simp
    have le: "\<forall>x \<in> set (butlast S). x = r \<or> ahead up x r"
      using "1.prems"(5) by (auto dest: in_set_butlastD)
    note ih = "1.IH"[OF True c tu su ne le br]
    from ih obtain T where T: "butlast S = keep_left_pop exact (butlast S) r @ T" by blast
    with S' have "S = keep_left_pop exact (butlast S) r @ (T @ [t])" by (metis append.assoc)
    then have pre: "\<exists>T. S = keep_left_pop exact S r @ T" unfolding eq by blast
    from ne have "hd (butlast S) = hd S" by (cases S) (auto split: if_splits)
    with ih pre show ?thesis unfolding eq by simp
  next
    case False
    then have eq: "keep_left_pop exact S r = S" by (subst keep_left_pop.simps) auto
    have ex: "\<forall>us a b. S = us @ [a, b] \<longrightarrow> 0 < cross a b r"
    proof (intro allI impI)
      fix us a b assume S: "S = us @ [a, b]"
      then have "1 < ?n" "S ! (?n - 2) = a" "S ! (?n - 1) = b"
        by (simp_all add: nth_append)
      with False show "0 < cross a b r" by (simp add: turn_cross)
    qed
    from "1.prems" ex show ?thesis unfolding eq by simp
  qed
qed

lemma keep_left_empty [simp]: "keep_left exact [] r = [r]"
  by (simp add: keep_left_def)

lemma strict_chain_support:
  assumes "chain up S" and "turns S" and "S \<noteq> []" and "last S = r \<or> ahead up (last S) r"
    and "\<forall>us a b. S = us @ [a, b] \<longrightarrow> 0 < cross a b r"
  shows "\<forall>a b. adjacent a b S \<longrightarrow> 0 < cross a b r"
  using assms
proof (induction S arbitrary: r rule: rev_induct)
  case Nil
  then show ?case by simp
next
  case (snoc t S)
  show ?case
  proof (intro allI impI)
    fix a b assume "adjacent a b (S @ [t])"
    then consider "adjacent a b S" | "S \<noteq> []" "a = last S" "b = t"
      by (auto simp: adjacent_snoc)
    then show "0 < cross a b r"
    proof cases
      case 2
      then have "S @ [t] = butlast S @ [a, b]" by simp
      with snoc.prems(5) show ?thesis by blast
    next
      case 1
      then obtain us vs where S: "S = us @ a # b # vs" by (auto simp: adjacent_def)
      then have ne: "S \<noteq> []" by simp
      define s where "s = last S"
      from ne have S': "S = butlast S @ [s]" by (simp add: s_def)
      from S ne obtain ws s0 where ws: "S = ws @ [s0, s]"
        by (metis S' append_butlast_last_id append_is_Nil_conv butlast.simps(2)
              butlast_append list.distinct(1) append.assoc append_Cons append_Nil)
      from snoc.prems(1) have c: "chain up S" by (rule chain_prefix)
      from snoc.prems(2) have tu: "turns S" by (rule turns_prefix)
      from snoc.prems(1) ws have st: "ahead up s t" and s0s: "ahead up s0 s"
        by (auto simp: chain_def sorted_wrt_append)
      from snoc.prems(4) have tr: "t = r \<or> ahead up t r" by simp
      from snoc.prems(2) ws have l1: "0 < cross s0 s t"
        unfolding turns_def by (metis append.assoc append_Cons append_Nil)
      from snoc.prems(5) ws have l2: "0 < cross s t r"
        by (metis append.assoc append_Cons append_Nil)
      have "0 < cross s0 s r" by (rule chain_extend[OF s0s st tr l1 l2])
      have sr: "last S = r \<or> ahead up (last S) r"
        using st tr by (auto simp: s_def intro: ahead_trans)
      have ex: "\<forall>us a b. S = us @ [a, b] \<longrightarrow> 0 < cross a b r"
      proof (intro allI impI)
        fix us' a' b' assume "S = us' @ [a', b']"
        with ws have "a' = s0" "b' = s" by auto
        with \<open>0 < cross s0 s r\<close> show "0 < cross a' b' r" by simp
      qed
      from snoc.IH[OF c tu ne sr ex] 1 show ?thesis by blast
    qed
  qed
qed


lemma chain_last:
  assumes "chain up S" and "x \<in> set S"
  shows "x = last S \<or> ahead up x (last S)"
proof -
  from assms(2) have ne: "S \<noteq> []" by auto
  then have "S = butlast S @ [last S]" by simp
  with assms(1) have "\<forall>y \<in> set (butlast S). ahead up y (last S)"
    by (metis chain_snoc)
  moreover from assms(2) ne have "x \<in> set (butlast S) \<or> x = last S"
    by (metis Un_iff append_butlast_last_id empty_iff empty_set set_ConsD set_append)
  ultimately show ?thesis by blast
qed

lemma ahead_asym: "ahead up a b \<Longrightarrow> \<not> ahead up b a"
  by (auto simp: ahead_def split: if_splits)

lemma keep_left_inv:
  assumes inv: "scan_inv up P S" and r: "\<forall>q \<in> P. q = r \<or> ahead up q r"
  shows "scan_inv up (insert r P) (keep_left exact S r)"
proof (cases "S = []")
  case True
  with inv have "P = {}" by (auto simp: scan_inv_def)
  with True show ?thesis
    by (simp add: scan_inv_def chain_def turns_def supports_def adjacent_def)
next
  case False
  from inv have c: "chain up S" and tu: "turns S" and su: "supports P S" and sub: "set S \<subseteq> P"
    and first: "\<forall>q \<in> P. q = hd S \<or> ahead up (hd S) q"
    and top: "\<forall>q \<in> P. q = last S \<or> ahead up q (last S)"
    by (simp_all add: scan_inv_def)
  from sub r have le: "\<forall>x \<in> set S. x = r \<or> ahead up x r" by blast
  have br: "\<forall>q \<in> P. (q = last S \<or> ahead up (last S) q) \<longrightarrow> 0 \<le> cross (last S) r q"
  proof (intro ballI impI)
    fix q assume "q \<in> P" "q = last S \<or> ahead up (last S) q"
    with top have "q = last S" by (auto dest: ahead_asym)
    then show "0 \<le> cross (last S) r q" by simp
  qed
  define S' where "S' = keep_left_pop exact S r"
  from keep_left_pop_inv[OF c tu su False le br]
  obtain T where T: "S = S' @ T" and ne: "S' \<noteq> []" and hd: "hd S' = hd S"
    and ex: "\<forall>us a b. S' = us @ [a, b] \<longrightarrow> 0 < cross a b r"
    and br': "\<forall>q \<in> P. (q = last S' \<or> ahead up (last S') q) \<longrightarrow> 0 \<le> cross (last S') r q"
    unfolding S'_def by blast
  from c T have c': "chain up S'" using chain_prefix by metis
  from tu T have tu': "turns S'" using turns_prefix by metis
  from T have sub': "set S' \<subseteq> set S" by (metis set_append sup_ge1)
  show ?thesis
  proof (cases "last S' = r")
    case True
    have "T = []"
    proof (rule ccontr)
      assume "T \<noteq> []"
      then obtain x where x: "x \<in> set T" by (cases T) auto
      from c T ne x have "ahead up (last S') x"
        by (auto simp: chain_def sorted_wrt_append)
      moreover from T x le have "x = r \<or> ahead up x r" by auto
      ultimately show False using True by (auto dest: ahead_asym simp: ahead_irrefl)
    qed
    with T have "S' = S" by simp
    moreover from True ne sub' sub have "r \<in> P" by (metis last_in_set subsetD)
    ultimately have "keep_left exact S r = S" "insert r P = P"
      using True ne by (auto simp: keep_left_def S'_def Let_def)
    with inv show ?thesis by simp
  next
    case neq: False
    define t where "t = last S'"
    from ne have tin: "t \<in> set S'" by (simp add: t_def)
    with sub' le neq have tr: "ahead up t r" by (auto simp: t_def)
    have kl: "keep_left exact S r = S' @ [r]"
      using neq by (simp add: keep_left_def S'_def Let_def)
    have all: "\<forall>x \<in> set S'. ahead up x r"
    proof
      fix x assume "x \<in> set S'"
      from chain_last[OF c' this] tr show "ahead up x r"
        by (auto simp: t_def intro: ahead_trans)
    qed
    have 1: "chain up (S' @ [r])" using c' all by (simp add: chain_snoc)
    have 2: "turns (S' @ [r])" using tu' ex by (simp add: turns_snoc)
    have strict: "\<forall>a b. adjacent a b S' \<longrightarrow> 0 < cross a b r"
      by (rule strict_chain_support[OF c' tu' ne _ ex]) (use tr in \<open>simp add: t_def\<close>)
    have 3: "supports (insert r P) (S' @ [r])"
      unfolding supports_def
    proof (intro allI impI ballI)
      fix a b q assume adj: "adjacent a b (S' @ [r])" and q: "q \<in> insert r P"
      from adj consider "adjacent a b S'" | "a = t" "b = r"
        by (auto simp: adjacent_snoc t_def)
      then show "0 \<le> cross a b q"
      proof cases
        case 1
        show ?thesis
        proof (cases "q = r")
          case True
          from strict 1 have "0 < cross a b r" by blast
          with True show ?thesis by simp
        next
          case False
          with q have "q \<in> P" by simp
          moreover from 1 T have "adjacent a b S" by (simp add: adjacent_append_left)
          ultimately show ?thesis using su unfolding supports_def by blast
        qed
      next
        case 2
        show ?thesis
        proof (cases "q = r \<or> q = t \<or> ahead up t q")
          case True
          with br' q 2 show ?thesis by (auto simp: t_def)
        next
          case False
          with q have qP: "q \<in> P" and qt: "ahead up q t"
            using ahead_total[of q t up] by auto
          have "S' \<noteq> [t]"
          proof
            assume "S' = [t]"
            with hd have "hd S = t" by simp
            with first qP have "q = t \<or> ahead up t q" by auto
            with qt show False by (auto dest: ahead_asym simp: ahead_irrefl)
          qed
          with ne obtain ws s where ws: "S' = ws @ [s, t]"
            unfolding t_def
            by (metis append_butlast_last_id append_Nil append.assoc append_Cons
                  butlast.simps(2) list.exhaust rev_exhaust snoc_eq_iff_butlast)
          from c' ws have st: "ahead up s t" by (auto simp: chain_def sorted_wrt_append)
          from ws T have "S = ws @ s # t # T" by simp
          then have "adjacent s t S" unfolding adjacent_def by blast
          with su qP have sq: "0 \<le> cross s t q" unfolding supports_def by blast
          from ex ws have "0 < cross s t r" by blast
          from bridge_left[OF st qt tr sq this] 2 show ?thesis by simp
        qed
      qed
    qed
    have 4: "set (S' @ [r]) \<subseteq> insert r P" using sub sub' by auto
    have 5: "\<forall>q \<in> insert r P. q = hd (S' @ [r]) \<or> ahead up (hd (S' @ [r])) q"
    proof
      fix q assume "q \<in> insert r P"
      moreover have "hd (S' @ [r]) = hd S" using ne hd by simp
      moreover have "hd S = r \<or> ahead up (hd S) r" using le False by simp
      ultimately show "q = hd (S' @ [r]) \<or> ahead up (hd (S' @ [r])) q"
        using first by auto
    qed
    have 6: "\<forall>q \<in> insert r P. q = last (S' @ [r]) \<or> ahead up q (last (S' @ [r]))"
      using r by simp
    from 1 2 3 4 5 6 show ?thesis unfolding kl scan_inv_def by simp
  qed
qed

lemma foldl_keep_left_inv:
  assumes "scan_inv up P S" and "sorted_wrt (\<lambda>a b. a = b \<or> ahead up a b) ps"
    and "\<forall>q \<in> P. \<forall>r \<in> set ps. q = r \<or> ahead up q r"
  shows "scan_inv up (P \<union> set ps) (foldl (keep_left exact) S ps)"
  using assms
proof (induction ps arbitrary: P S)
  case Nil
  then show ?case by simp
next
  case (Cons r ps)
  from Cons.prems(3) have "\<forall>q \<in> P. q = r \<or> ahead up q r" by simp
  from keep_left_inv[OF Cons.prems(1) this]
  have inv: "scan_inv up (insert r P) (keep_left exact S r)" .
  from Cons.prems(2) have s: "sorted_wrt (\<lambda>a b. a = b \<or> ahead up a b) ps" by simp
  from Cons.prems(2,3) have "\<forall>q \<in> insert r P. \<forall>x \<in> set ps. q = x \<or> ahead up q x" by auto
  from Cons.IH[OF inv s this] show ?case by simp
qed

subsection \<open>The hull\<close>

lemma scan_inv_empty: "scan_inv up {} []"
  by (simp add: scan_inv_def chain_def turns_def supports_def adjacent_def)

lemma lower_scan:
  "scan_inv True (set ps) (foldl (keep_left exact) [] (sort ps))"
proof -
  have "sorted_wrt (\<lambda>a b. a \<le> b) (sort ps)" using sorted_sort[of ps] by simp
  then have "sorted_wrt (\<lambda>a b. a = b \<or> ahead True a b) (sort ps)"
    by (rule sorted_wrt_mono_rel[rotated]) (auto simp: ahead_def)
  from foldl_keep_left_inv[OF scan_inv_empty this] show ?thesis by simp
qed

lemma upper_scan:
  "scan_inv False (set ps) (foldl (keep_left exact) [] (rev (sort ps)))"
proof -
  have "sorted_wrt (\<lambda>a b. a \<le> b) (sort ps)" using sorted_sort[of ps] by simp
  then have "sorted_wrt (\<lambda>a b. b = a \<or> ahead False b a) (sort ps)"
    by (rule sorted_wrt_mono_rel[rotated]) (auto simp: ahead_def)
  then have "sorted_wrt (\<lambda>a b. a = b \<or> ahead False a b) (rev (sort ps))"
    by (simp add: sorted_wrt_rev)
  from foldl_keep_left_inv[OF scan_inv_empty this] show ?thesis by simp
qed

lemma middle_of: "map (\<lambda>i. u ! i) [1 ..< length u - 1] = butlast (tl u)"
  by (rule map_upt_eqI) (simp_all add: nth_butlast nth_tl)

lemma grahams_hull_parts:
  "grahams_hull exact ps = foldl (keep_left exact) [] (sort ps)
                      @ butlast (tl (foldl (keep_left exact) [] (rev (sort ps))))"
  unfolding grahams_hull_def Let_def middle_of ..

lemma walk_adjacent:
  assumes "e \<in> set (walk H)"
  shows "adjacent (fst e) (snd e) H \<or> (fst e = last H \<and> snd e = hd H)"
proof -
  from assms have ne: "H \<noteq> []" by (auto simp: walk_def)
  from assms obtain i where i: "i < length H" "fst e = H ! i" "snd e = (tl H @ [hd H]) ! i"
    unfolding walk_def in_set_zip by auto
  show ?thesis
  proof (cases "Suc i < length H")
    case True
    then have "H = take i H @ H ! i # H ! Suc i # drop (Suc (Suc i)) H"
      by (metis Cons_nth_drop_Suc Suc_lessD id_take_nth_drop)
    moreover from True have "i < length (tl H)" by simp
    with i have "snd e = H ! Suc i" by (simp add: nth_append nth_tl)
    ultimately show ?thesis using i unfolding adjacent_def by metis
  next
    case False
    with i have "i = length H - 1" by simp
    with i ne show ?thesis by (simp add: nth_append last_conv_nth)
  qed
qed

lemma adjacent_append:
  "adjacent a b (l @ m) \<Longrightarrow>
     adjacent a b l \<or> adjacent a b m \<or> (l \<noteq> [] \<and> m \<noteq> [] \<and> a = last l \<and> b = hd m)"
proof (induction m rule: rev_induct)
  case Nil
  then show ?case by simp
next
  case (snoc x m)
  from snoc.prems have "adjacent a b ((l @ m) @ [x])" by simp
  then have "adjacent a b (l @ m) \<or> (l @ m \<noteq> [] \<and> a = last (l @ m) \<and> b = x)"
    by (simp only: adjacent_snoc)
  then consider "adjacent a b (l @ m)" | "l @ m \<noteq> []" "a = last (l @ m)" "b = x"
    by blast
  then show ?case
  proof cases
    case 1
    from snoc.IH[OF this] show ?thesis
      by (auto simp: adjacent_snoc)
  next
    case 2
    show ?thesis
    proof (cases "m = []")
      case True
      with 2 show ?thesis by simp
    next
      case False
      with 2 have "a = last m" "b = x" by simp_all
      with False have "adjacent a b (m @ [x])" by (simp add: adjacent_snoc)
      then show ?thesis by simp
    qed
  qed
qed

lemma ends_middle:
  assumes "2 \<le> length u"
  shows "u = hd u # butlast (tl u) @ [last u]"
proof -
  from assms obtain x y ys where u: "u = x # y # ys"
    by (cases u; cases "tl u") auto
  then have "tl u \<noteq> []" by simp
  then have "tl u = butlast (tl u) @ [last (tl u)]" by simp
  with u show ?thesis by (metis list.sel(1,3) last_ConsR list.distinct(1))
qed

lemma collinear_dot:
  assumes "lexpos v" and "z = (0, 0) \<or> lexpos z" and "det v z = 0"
  shows "0 \<le> fst z * fst v + snd z * snd v"
proof (cases "0 < fst v")
  case True
  from assms(3) have e: "snd z * fst v = fst z * snd v" by (simp add: det_def algebra_simps)
  have "(fst z * fst v + snd z * snd v) * fst v
          = fst z * (fst v * fst v) + (snd z * fst v) * snd v"
    by (simp add: algebra_simps)
  also have "\<dots> = fst z * (fst v * fst v + snd v * snd v)"
    unfolding e by (simp add: algebra_simps)
  finally have id: "(fst z * fst v + snd z * snd v) * fst v
                      = fst z * (fst v * fst v + snd v * snd v)" .
  from assms(2) have "0 \<le> fst z" by (auto simp: lexpos_def)
  then have "0 \<le> fst z * (fst v * fst v + snd v * snd v)"
    by (intro mult_nonneg_nonneg) simp_all
  with id have "0 \<le> (fst z * fst v + snd z * snd v) * fst v" by simp
  with True show ?thesis by (simp add: zero_le_mult_iff)
next
  case False
  with assms(1) have v: "fst v = 0" "0 < snd v" by (auto simp: lexpos_def)
  with assms(3) have "fst z = 0" by (simp add: det_def)
  with assms(2) have "0 \<le> snd z" by (auto simp: lexpos_def)
  with v show ?thesis by simp
qed

lemma between_on_segment:
  assumes "a < b" and "q = a \<or> a < q" and "q = b \<or> q < b" and "cross a b q = 0"
  shows "on_segment a b q"
proof -
  let ?v = "vec True a b" and ?z = "vec True a q" and ?w = "vec True q b"
  from assms(1) have v: "lexpos ?v" by (simp add: ahead_lexpos[symmetric] ahead_def)
  from assms(2) have z: "?z = (0, 0) \<or> lexpos ?z"
    by (auto simp: ahead_lexpos[symmetric] ahead_def) (simp add: vec_def)
  from assms(3) have w: "?w = (0, 0) \<or> lexpos ?w"
    by (auto simp: ahead_lexpos[symmetric] ahead_def) (simp add: vec_def)
  from assms(4) have dz: "det ?v ?z = 0" by (simp add: cross_det[of a b q True])
  then have dw: "det ?v ?w = 0" by (simp add: det_def vec_def algebra_simps)
  from collinear_dot[OF v z dz] collinear_dot[OF v w dw] assms(4)
  show ?thesis
    by (simp add: on_segment_def vec_def power2_eq_square algebra_simps)
qed


lemma supportsD: "supports P S \<Longrightarrow> adjacent a b S \<Longrightarrow> q \<in> P \<Longrightarrow> 0 \<le> cross a b q"
  unfolding supports_def by blast

lemma grahams_hull_within:
  assumes q: "q \<in> set ps"
  shows "within_or_on (grahams_hull exact ps) q \<and> set (grahams_hull exact ps) \<subseteq> set ps"
proof -
  define l where "l = foldl (keep_left exact) [] (sort ps)"
  define u where "u = foldl (keep_left exact) [] (rev (sort ps))"
  define m where "m = butlast (tl u)"
  have H: "grahams_hull exact ps = l @ m"
    by (simp add: grahams_hull_parts l_def u_def m_def)
  have il: "scan_inv True (set ps) l" unfolding l_def by (rule lower_scan)
  have iu: "scan_inv False (set ps) u" unfolding u_def by (rule upper_scan)
  from q have pne: "set ps \<noteq> {}" by auto
  from il pne have lne: "l \<noteq> []" and cl: "chain True l" and sl: "supports (set ps) l"
    and subl: "set l \<subseteq> set ps"
    and lmin: "\<forall>x \<in> set ps. x = hd l \<or> hd l < x"
    and lmax: "\<forall>x \<in> set ps. x = last l \<or> x < last l"
    by (simp_all add: scan_inv_def ahead_def)
  from iu pne have une: "u \<noteq> []" and cu: "chain False u" and su: "supports (set ps) u"
    and subu: "set u \<subseteq> set ps"
    and umax: "\<forall>x \<in> set ps. x = hd u \<or> x < hd u"
    and umin: "\<forall>x \<in> set ps. x = last u \<or> last u < x"
    by (simp_all add: scan_inv_def ahead_def)
  from lne subl have "hd l \<in> set ps" "last l \<in> set ps" by auto
  moreover from une subu have "hd u \<in> set ps" "last u \<in> set ps" by auto
  ultimately have top: "hd u = last l" and bot: "last u = hd l"
    using lmin lmax umin umax by (metis less_asym)+
  have mu: "u = hd u # m @ [last u]" if "m \<noteq> []"
  proof -
    from that have "0 < length (butlast (tl u))" unfolding m_def by blast
    then have "2 \<le> length u" by (simp only: length_butlast length_tl)
    from ends_middle[OF this] show ?thesis by (simp add: m_def)
  qed
  have subm: "set m \<subseteq> set u"
  proof
    fix x assume "x \<in> set m"
    then have "x \<in> set (tl u)" unfolding m_def by (rule in_set_butlastD)
    then show "x \<in> set u" by (cases u) auto
  qed
  have edge: "0 \<le> cross (fst e) (snd e) q" if e: "e \<in> set (walk (l @ m))" for e
  proof -
    from walk_adjacent[OF e]
    consider "adjacent (fst e) (snd e) (l @ m)" | "fst e = last (l @ m)" "snd e = hd (l @ m)"
      by blast
    then show ?thesis
    proof cases
      case 1
      from adjacent_append[OF this]
      consider "adjacent (fst e) (snd e) l" | "adjacent (fst e) (snd e) m"
        | "m \<noteq> []" "fst e = last l" "snd e = hd m"
        by blast
      then show ?thesis
      proof cases
        case 1
        from supportsD[OF sl this q] show ?thesis .
      next
        case 2
        then have mne: "m \<noteq> []" by (auto simp: adjacent_def)
        from 2 have "adjacent (fst e) (snd e) (m @ [last u])" by (rule adjacent_append_left)
        then have "adjacent (fst e) (snd e) ([hd u] @ m @ [last u])"
          by (rule adjacent_append_right)
        with mu[OF mne] have "adjacent (fst e) (snd e) u" by simp
        from supportsD[OF su this q] show ?thesis .
      next
        case 3
        from 3(1) have "m = hd m # tl m" by simp
        with mu[OF 3(1)] have "u = [] @ hd u # hd m # (tl m @ [last u])"
          by (metis append_Cons append_Nil)
        then have "adjacent (hd u) (hd m) u" unfolding adjacent_def by blast
        from supportsD[OF su this q] 3 top show ?thesis by simp
      qed
    next
      case 2
      with lne bot have b: "snd e = last u" by simp
      show ?thesis
      proof (cases "m = []")
        case False
        with 2 have a: "fst e = last m" by simp
        from False have "m = butlast m @ [last m]" by simp
        with mu[OF False] have "u = (hd u # butlast m) @ last m # last u # []"
          by (metis append.assoc append_Cons append_Nil)
        then have "adjacent (last m) (last u) u" unfolding adjacent_def by blast
        from supportsD[OF su this q] a b show ?thesis by simp
      next
        case True
        with 2 top have a: "fst e = hd u" by simp
        show ?thesis
        proof (cases "2 \<le> length u")
          case True
          from ends_middle[OF this] \<open>m = []\<close> have "u = [] @ hd u # last u # []"
            by (simp add: m_def)
          then have "adjacent (hd u) (last u) u" unfolding adjacent_def by blast
          from supportsD[OF su this q] a b show ?thesis by simp
        next
          case False
          with une have "length u = 1" by (cases u) (simp_all add: not_le)
          then have "hd u = last u" by (cases u) auto
          with a b show ?thesis by simp
        qed
      qed
    qed
  qed
  have sub: "set (l @ m) \<subseteq> set ps" using subl subm subu by auto
  have "within_or_on (l @ m) q"
  proof (cases "(l @ m, q)" rule: within_or_on.cases)
    case (1 q')
    with lne show ?thesis by simp
  next
    case One: (2 a q')
    with lne have "l = [a]" by (cases l) auto
    with lmin lmax q have "q = a" by (auto dest: less_asym)
    with One show ?thesis by simp
  next
    case (3 a b q')
    then have lm: "l @ m = [a, b]" by simp
    show ?thesis
    proof (cases "m = []")
      case True
      with lm have l: "l = [a, b]" by simp
      with cl have ab: "a < b" by (simp add: chain_def ahead_def)
      from l have "adjacent a b l" by (simp add: adjacent_two)
      from supportsD[OF sl this q] have 1: "0 \<le> cross a b q" .
      from l top bot have "hd u = b" "last u = a" by simp_all
      with ab une have "2 \<le> length u" by (cases u; cases "tl u") auto
      from ends_middle[OF this] True \<open>hd u = b\<close> \<open>last u = a\<close> have "u = [b, a]"
        by (simp add: m_def)
      then have "adjacent b a u" by (simp add: adjacent_two)
      from supportsD[OF su this q] have "0 \<le> cross b a q" .
      moreover have "cross b a q = - cross a b q" by (simp add: cross_def algebra_simps)
      ultimately have 0: "cross a b q = 0" using 1 by simp
      from l lmin lmax q have "q = a \<or> a < q" "q = b \<or> q < b" by auto
      from between_on_segment[OF ab this 0] lm show ?thesis by simp
    next
      case False
      with lm lne have l: "l = [a]" and mb: "m = [b]"
        by (cases l; cases "tl l"; auto)+
      from l lmin lmax have all: "\<forall>x \<in> set ps. x = a" by (auto dest: less_asym)
      from mu[OF False] mb have "u = [hd u, b, last u]" by simp
      then have "sorted_wrt (ahead False) [hd u, b, last u]" using cu by (simp only: chain_def)
      then have "ahead False (hd u) b" by simp
      moreover from une subu all have "hd u = a" by (metis hd_in_set subsetD)
      moreover from mb subm subu all have "b = a" by (metis list.set_intros(1) subsetD)
      ultimately show ?thesis by (simp add: ahead_irrefl)
    qed
  next
    case (4 a b c rest q')
    then have "l @ m = a # b # c # rest" by simp
    with edge show ?thesis by simp
  qed
  with sub show ?thesis unfolding H by simp
qed


lemma emap_list_all2: "emap f xs = Inr ys \<Longrightarrow> list_all2 (\<lambda>x y. f x = Inr y) xs ys"
proof (induction xs arbitrary: ys)
  case Nil
  then show ?case by simp
next
  case (Cons x xs)
  then show ?case by (auto simp: ebind_eq_Inr)
qed

text \<open>The scan in an arithmetic that decides the orientation of the points rightly is the
  scan in the arithmetic that does not round: \<open>turn\<close> is only called on points of the
  input.\<close>

lemma orients_exact: "orients exact P"
  by (simp add: orients_def turn_def cross_def Let_def sgn_if)

lemma turn_orients:
  assumes "orients fl P" and "p \<in> P" and "q \<in> P" and "r \<in> P"
  shows "turn fl p q r = turn exact p q r"
proof -
  from assms orients_exact[of P]
  have "(of_int (turn fl p q r) :: real) = of_int (turn exact p q r)"
    by (simp add: orients_def)
  then show ?thesis by simp
qed

lemma keep_left_pop_subset: "set (keep_left_pop fl S r) \<subseteq> set S"
proof (induction S r rule: keep_left_pop_induct[where fl = fl])
  case (1 S r)
  show ?case
  proof (cases "1 < length S \<and> turn fl (S ! (length S - 2)) (S ! (length S - 1)) r \<noteq> 1")
    case True
    then have "keep_left_pop fl S r = keep_left_pop fl (butlast S) r"
      by (subst keep_left_pop.simps) simp
    with 1[OF True] show ?thesis by (auto dest: in_set_butlastD)
  next
    case False
    then have "keep_left_pop fl S r = S" by (subst keep_left_pop.simps) auto
    then show ?thesis by simp
  qed
qed

lemma keep_left_pop_orients:
  assumes "orients fl P"
  shows "r \<in> P \<Longrightarrow> set S \<subseteq> P \<Longrightarrow> keep_left_pop fl S r = keep_left_pop exact S r"
proof (induction S r rule: keep_left_pop_induct[where fl = fl])
  case (1 S r)
  have t: "turn fl (S ! (length S - 2)) (S ! (length S - 1)) r
             = turn exact (S ! (length S - 2)) (S ! (length S - 1)) r" if "1 < length S"
  proof -
    from that have "S ! (length S - 2) \<in> set S" "S ! (length S - 1) \<in> set S" by simp_all
    with 1(2,3) assms show ?thesis by (intro turn_orients[of fl P]) auto
  qed
  show ?case
  proof (cases "1 < length S \<and> turn fl (S ! (length S - 2)) (S ! (length S - 1)) r \<noteq> 1")
    case True
    from 1(3) have "set (butlast S) \<subseteq> P" by (auto dest: in_set_butlastD)
    from 1(1)[OF True 1(2) this] True t show ?thesis
      by (subst keep_left_pop.simps, subst (2) keep_left_pop.simps) simp
  next
    case False
    with t have "\<not> (1 < length S \<and> turn exact (S ! (length S - 2)) (S ! (length S - 1)) r \<noteq> 1)"
      by auto
    with False show ?thesis
      by (subst keep_left_pop.simps, subst (2) keep_left_pop.simps) auto
  qed
qed

lemma keep_left_subset: "set (keep_left fl S r) \<subseteq> insert r (set S)"
  using keep_left_pop_subset[of fl S r] by (auto simp: keep_left_def Let_def)

lemma foldl_keep_left_orients:
  assumes "orients fl P"
  shows "set S \<subseteq> P \<Longrightarrow> set ps \<subseteq> P
           \<Longrightarrow> foldl (keep_left fl) S ps = foldl (keep_left exact) S ps"
proof (induction ps arbitrary: S)
  case Nil
  then show ?case by simp
next
  case (Cons r ps)
  from Cons.prems have r: "r \<in> P" by simp
  from keep_left_pop_orients[OF assms r Cons.prems(1)]
  have e: "keep_left fl S r = keep_left exact S r" by (simp add: keep_left_def)
  from keep_left_subset[of exact S r] Cons.prems r have "set (keep_left exact S r) \<subseteq> P" by auto
  from Cons.IH[OF this] Cons.prems e show ?case by simp
qed

lemma grahams_hull_orients:
  assumes "orients fl (set ps)"
  shows "grahams_hull fl ps = grahams_hull exact ps"
proof -
  have "foldl (keep_left fl) [] (sort ps) = foldl (keep_left exact) [] (sort ps)"
    "foldl (keep_left fl) [] (rev (sort ps)) = foldl (keep_left exact) [] (rev (sort ps))"
    by (rule foldl_keep_left_orients[OF assms]; simp)+
  then show ?thesis by (simp add: grahams_hull_def)
qed

text \<open>Three points in the order of the scan, the middle one of which the arithmetic does not
  see to the left of the two others either way: the hull is the two outer points, whatever
  the sign of the cross product is.\<close>

lemma grahams_hull_three:
  assumes "p < q" and "q < r" and "turn fl p q r \<noteq> 1" and "turn fl r q p \<noteq> 1"
  shows "grahams_hull fl [p, q, r] = [p, r]"
proof -
  from assms(1,2) have "p < r" by simp
  with assms(1,2) have s: "sort [p, q, r] = [p, q, r]"
    by (simp add: sort_key_def insort_key_def less_imp_le not_le)
  from assms have n: "p \<noteq> q" "q \<noteq> r" "p \<noteq> r" "q \<noteq> p" "r \<noteq> q" "r \<noteq> p" by auto
  from assms(3,4) n show ?thesis
    unfolding grahams_hull_def s
    by (simp add: keep_left_def keep_left_pop2 Let_def)
qed

text \<open>
  C5, as amended. For every cycle of the cycle basis such that the arithmetic decides the
  orientation of the positions of its vertices rightly (no rounding changes the sign of a
  cross product, as with coordinates that are small integers), every vertex of that cycle
  lies within or on the hull that the strict-left-turn Graham scan builds from the positions
  of the vertices of that cycle, before any arc expansion; and the points of the hull are
  positions of vertices of the cycle.
\<close>

theorem computeInnerHull_covers_cycle:
  assumes "Vertices s = Some vs" and "distinct (map fst vs)"
    and "computeInnerHull fl nx s g = Inr hulls"
  shows "list_all2
           (\<lambda>cycle ids.
              orients fl (set (map (vertex_pos s) cycle)) \<longrightarrow>
              (\<forall>v \<in> set cycle. within_or_on (map (vertex_pos s) ids) (vertex_pos s v))
              \<and> set (map (vertex_pos s) ids) \<subseteq> set (map (vertex_pos s) cycle))
           (cycle_basis nx g) hulls"
proof -
  let ?F = "\<lambda>path. ebind (emap (position s) path)
                    (\<lambda>pts. emap (\<lambda>h. pointLookup h s) (grahams_hull fl pts))"
  from assms(3) have "emap ?F (cycle_basis nx g) = Inr hulls"
    by (auto simp: computeInnerHull_def findPath_def Let_def ebind_eq_Inr split: if_splits)
  from emap_list_all2[OF this]
  have "list_all2 (\<lambda>cycle ids. ?F cycle = Inr ids) (cycle_basis nx g) hulls" .
  then show ?thesis
  proof (rule list_all2_mono)
    fix cycle ids assume F: "?F cycle = Inr ids"
    from inner_hull_ids[OF assms(1,2) F]
    have "emap (position s) ids = Inr (initial_hull_of fl s cycle)" by (rule conjunct2)
    from emap_position[OF this]
    have h: "map (vertex_pos s) ids = grahams_hull fl (map (vertex_pos s) cycle)"
      by (simp add: initial_hull_of_def)
    show "orients fl (set (map (vertex_pos s) cycle)) \<longrightarrow>
          (\<forall>v \<in> set cycle. within_or_on (map (vertex_pos s) ids) (vertex_pos s v))
          \<and> set (map (vertex_pos s) ids) \<subseteq> set (map (vertex_pos s) cycle)"
    proof
      assume "orients fl (set (map (vertex_pos s) cycle))"
      from grahams_hull_orients[OF this] h
      have h': "map (vertex_pos s) ids = grahams_hull exact (map (vertex_pos s) cycle)"
        by simp
      show "(\<forall>v \<in> set cycle. within_or_on (map (vertex_pos s) ids) (vertex_pos s v))
          \<and> set (map (vertex_pos s) ids) \<subseteq> set (map (vertex_pos s) cycle)"
      proof (cases "cycle = []")
        case True
        with h' show ?thesis by (simp add: grahams_hull_def)
      next
        case False
        then obtain v0 where "v0 \<in> set cycle" by (cases cycle) auto
        then have "vertex_pos s v0 \<in> set (map (vertex_pos s) cycle)" by simp
        from grahams_hull_within[OF this]
        have sub: "set (grahams_hull exact (map (vertex_pos s) cycle))
                     \<subseteq> set (map (vertex_pos s) cycle)"
          by simp
        have "within_or_on (grahams_hull exact (map (vertex_pos s) cycle)) (vertex_pos s v)"
          if "v \<in> set cycle" for v
        proof -
          from that have "vertex_pos s v \<in> set (map (vertex_pos s) cycle)" by simp
          from grahams_hull_within[OF this] show ?thesis by simp
        qed
        with sub show ?thesis unfolding h' by blast
      qed
    qed
  qed
qed

lemma twin_computeInnerHull:
  "computeInnerHull exact example_nx (json_load twin_raw)
     \<lparr>nodes = [1, 2, 3, 4, 5, 6, 7, 8],
        edges = [(1, 2), (2, 3), (3, 4), (4, 1), (5, 6), (6, 7), (7, 8), (8, 5)]\<rparr>
     = Inr [[1, 2, 3, 4], [5, 6, 7, 8]]"
  by (simp add: computeInnerHull_def findPath_def example_nx_def twin_load position_def
        square_grahams_hull rectangle_grahams_hull pointLookup_def eval_defs)

lemma twin_positions:
  "map (vertex_pos (json_load twin_raw)) [1, 2, 3, 4] = [(0, 0), (1, 0), (1, 1), (0, 1)]"
  "map (vertex_pos (json_load twin_raw)) [5, 6, 7, 8] = [(3, 0), (5, 0), (5, 1), (3, 1)]"
  by (simp_all add: vertex_pos_def position_def twin_load eval_defs)

theorem computeInnerHull_covers_cycle_witness:
  "computeInnerHull exact example_nx (json_load twin_raw)
     \<lparr>nodes = [1, 2, 3, 4, 5, 6, 7, 8],
        edges = [(1, 2), (2, 3), (3, 4), (4, 1), (5, 6), (6, 7), (7, 8), (8, 5)]\<rparr>
     = Inr [[1, 2, 3, 4], [5, 6, 7, 8]]
   \<and> within_or_on [(0, 0), (1, 0), (1, 1), (0, 1)] (vertex_pos (json_load twin_raw) 2)
   \<and> within_or_on [(0, 0), (1, 0), (1, 1), (0, 1)] (vertex_pos (json_load twin_raw) 3)
   \<and> within_or_on [(0, 0), (1, 0), (1, 1), (0, 1)] (vertex_pos (json_load twin_raw) 4)
   \<and> within_or_on [(0, 0), (1, 0), (1, 1), (0, 1)] (vertex_pos (json_load twin_raw) 1)
   \<and> within_or_on [(3, 0), (5, 0), (5, 1), (3, 1)] (vertex_pos (json_load twin_raw) 6)
   \<and> within_or_on [(3, 0), (5, 0), (5, 1), (3, 1)] (vertex_pos (json_load twin_raw) 7)
   \<and> within_or_on [(3, 0), (5, 0), (5, 1), (3, 1)] (vertex_pos (json_load twin_raw) 8)
   \<and> within_or_on [(3, 0), (5, 0), (5, 1), (3, 1)] (vertex_pos (json_load twin_raw) 5)"
proof -
  have v: "Vertices (json_load twin_raw)
             = Some [(1, (0, 0)), (2, (1, 0)), (3, (1, 1)), (4, (0, 1)),
                     (5, (3, 0)), (6, (5, 0)), (7, (5, 1)), (8, (3, 1))]"
    and d: "distinct (map fst [(1 :: int, (0 :: real, 0 :: real)), (2, (1, 0)), (3, (1, 1)),
                               (4, (0, 1)), (5, (3, 0)), (6, (5, 0)), (7, (5, 1)), (8, (3, 1))])"
    by (simp_all add: twin_load)
  have c: "cycle_basis example_nx
             \<lparr>nodes = [1, 2, 3, 4, 5, 6, 7, 8],
                edges = [(1, 2), (2, 3), (3, 4), (4, 1), (5, 6), (6, 7), (7, 8), (8, 5)]\<rparr>
           = [[2, 3, 4, 1], [6, 7, 8, 5]]"
    by (simp add: example_nx_def)
  from computeInnerHull_covers_cycle[OF v d twin_computeInnerHull]
  show ?thesis
    unfolding c
    by (simp only: list_all2_Cons twin_positions twin_computeInnerHull list.set ball_simps
          insert_iff orients_exact simp_thms)
qed

lemma stray_load:
  "json_load stray_raw =
     \<lparr>Vertices = Some [(1, (0, 0)), (2, (1, 0)), (3, (1, 1)), (4, (0, 1)), (5, (3, 0))],
      Edges = Some [(''a'', seg 1 2), (''b'', seg 2 3), (''c'', seg 3 4), (''d'', seg 4 1)]\<rparr>"
  by (simp add: json_load_def stray_raw_def json_object_def setitem_def)

lemma stray_validate:
  "validateSchema example_nx (json_load stray_raw)
     = Inr ([[2, 3, 4, 1]],
            \<lparr>nodes = [1, 2, 3, 4, 5], edges = [(1, 2), (2, 3), (3, 4), (4, 1)]\<rparr>)"
  by (simp add: validateSchema_def stray_load createGraph_def findPath_def example_nx_def
        seg_def eval_defs)

lemma stray_computeInnerHull:
  "computeInnerHull exact example_nx (json_load stray_raw)
     \<lparr>nodes = [1, 2, 3, 4, 5], edges = [(1, 2), (2, 3), (3, 4), (4, 1)]\<rparr>
     = Inr [[1, 2, 3, 4]]"
  by (simp add: computeInnerHull_def findPath_def example_nx_def stray_load position_def
        square_grahams_hull pointLookup_def eval_defs)

lemma stray_positions:
  "map (vertex_pos (json_load stray_raw)) [1, 2, 3, 4] = [(0, 0), (1, 0), (1, 1), (0, 1)]"
  by (simp add: vertex_pos_def position_def stray_load eval_defs)

text \<open>C5 as stated fails: vertex 5 of this schema, at \<open>(3, 0)\<close>, is a vertex of the schema
  and is neither within nor on the one hull that is computed, the hull of the cycle of the
  unit square. In the same way a vertex of one cycle can lie outside the hull of another
  cycle.\<close>

theorem vertex_outside_hull:
  "validateSchema example_nx (json_load stray_raw)
     = Inr ([[2, 3, 4, 1]],
            \<lparr>nodes = [1, 2, 3, 4, 5], edges = [(1, 2), (2, 3), (3, 4), (4, 1)]\<rparr>)
   \<and> computeInnerHull exact example_nx (json_load stray_raw)
       \<lparr>nodes = [1, 2, 3, 4, 5], edges = [(1, 2), (2, 3), (3, 4), (4, 1)]\<rparr>
       = Inr [[1, 2, 3, 4]]
   \<and> position (json_load stray_raw) 5 = Inr (3, 0)
   \<and> \<not> within_or_on (map (vertex_pos (json_load stray_raw)) [1, 2, 3, 4]) (3, 0)"
proof -
  have "position (json_load stray_raw) 5 = Inr (3, 0)"
    by (simp add: position_def stray_load eval_defs)
  moreover have "\<not> within_or_on [(0, 0), (1, 0), (1, 1), (0, 1)] (3, 0)"
    by (simp add: walk_def cross_def)
  ultimately show ?thesis
    unfolding stray_positions stray_computeInnerHull stray_validate by blast
qed

end
